theory Spec2Isabelle
  imports Complex_Main "HOL-Library.AList" "HOL-Library.Multiset" "HOL-Library.Char_ord"
    "HOL-Library.List_Lexorder" "HOL-Library.Product_Lexorder"
begin

section \<open>Rows, values and exceptions\<close>

text \<open>
  \<^verbatim>\<open>TRow = dict[str, tp.Any]\<close>. A Python dict keeps its items in insertion order, and
  \<^verbatim>\<open>TopN\<close> compares the item lists of rows, so a row is an association list: the
  items in insertion order, no field name twice (\<open>is_dict\<close>). The values of the
  embedding are \<^verbatim>\<open>None\<close>, the numbers and the strings (code points below 256).

  Python's numbers in these rows are \<^verbatim>\<open>int\<close> (unbounded) and \<^verbatim>\<open>float\<close> (binary64). The
  operations on numbers that the code modelled here uses are \<^verbatim>\<open>==\<close>, \<^verbatim>\<open><\<close> and unary
  minus; all three are exact and see a number by its value alone (\<^verbatim>\<open>1 == 1.0\<close>,
  \<^verbatim>\<open>0.0 == -0.0\<close>, and \<^verbatim>\<open>1 < 2.5\<close> compares the exact values). So a number is its value:
  a rational, which every \<^verbatim>\<open>int\<close> and every finite \<^verbatim>\<open>float\<close> is, or one of the three
  special floats \<^verbatim>\<open>inf\<close>, \<^verbatim>\<open>-inf\<close> and \<^verbatim>\<open>nan\<close>. \<open>VInt n\<close> is the \<^verbatim>\<open>int\<close> \<open>n\<close>.
\<close>

datatype num = Nan | NegInf | Finite rat | PosInf

datatype val = VNone | VNum num | VStr string

definition VInt :: "int \<Rightarrow> val" where
  "VInt n = VNum (Finite (of_int n))"

text \<open>
  \<^verbatim>\<open>a == b\<close> on values: the same value, except that \<^verbatim>\<open>nan\<close> is equal to nothing, itself
  included. On lists of values (the key values of rows) \<^verbatim>\<open>==\<close> compares element by
  element.
\<close>

definition is_nan :: "val \<Rightarrow> bool" where
  "is_nan v = (v = VNum Nan)"

definition py_eq :: "val \<Rightarrow> val \<Rightarrow> bool" where
  "py_eq a b = (a = b \<and> \<not> is_nan a)"

definition keys_eq :: "val list \<Rightarrow> val list \<Rightarrow> bool" where
  "keys_eq a b = list_all2 py_eq a b"

type_synonym row = "(string \<times> val) list"

text \<open>
  The exceptions a consumer of a stream can see. \<open>KeyError\<close>, \<open>TypeError\<close>,
  \<open>AttributeError\<close>, \<open>IOError\<close> and \<open>IndexError\<close> are the ones Python raises in the code
  modelled here;
  \<open>ConfigError\<close> is the error kind the specification names, which no code path
  constructs.
\<close>

datatype error = KeyError string | TypeError | AttributeError | IOError | IndexError | ConfigError

definition is_dict :: "row \<Rightarrow> bool" where
  "is_dict r = distinct (map fst r)"

text \<open>\<^verbatim>\<open>row[key]\<close>: the value, or \<^verbatim>\<open>KeyError(key)\<close>.\<close>

definition getitem :: "row \<Rightarrow> string \<Rightarrow> error + val" where
  "getitem r k = (case map_of r k of None \<Rightarrow> Inl (KeyError k) | Some v \<Rightarrow> Inr v)"

text \<open>
  \<^verbatim>\<open>row[key] = value\<close>: an existing field keeps its position, a new one goes to the
  end.
\<close>

definition setitem :: "row \<Rightarrow> string \<Rightarrow> val \<Rightarrow> row" where
  "setitem r k v = AList.update k v r"

text \<open>\<^verbatim>\<open>key in row\<close>.\<close>

definition contains :: "row \<Rightarrow> string \<Rightarrow> bool" where
  "contains r k = (k \<in> fst ` set r)"

section \<open>Mappers\<close>

text \<open>
  A mapper is its \<^verbatim>\<open>__call__\<close>: one row in, the list of the rows it yields out, or
  the exception it raises. A mapper that changes its row in place and yields it
  (\<^verbatim>\<open>row[c] = ...; yield row\<close>) yields the changed row.
\<close>

type_synonym mapper = "row \<Rightarrow> error + row list"

text \<open>
  Unary minus of Python: defined on numbers, \<^verbatim>\<open>TypeError\<close> elsewhere. On a float it
  changes the sign and nothing else, so \<^verbatim>\<open>-nan\<close> is \<^verbatim>\<open>nan\<close>.
\<close>

fun num_neg :: "num \<Rightarrow> num" where
  "num_neg Nan = Nan"
| "num_neg NegInf = PosInf"
| "num_neg (Finite x) = Finite (- x)"
| "num_neg PosInf = NegInf"

fun py_neg :: "val \<Rightarrow> error + val" where
  "py_neg (VNum x) = Inr (VNum (num_neg x))"
| "py_neg VNone = Inl TypeError"
| "py_neg (VStr s) = Inl TypeError"

text \<open>
  \<^verbatim>\<open>
  class Inverse(Mapper):
      def __call__(self, row):
          row[self.column_to_inverse] = -row[self.column_to_inverse]
          yield row
  \<close>
\<close>

definition Inverse :: "string \<Rightarrow> mapper" where
  "Inverse column_to_inverse row =
     (case getitem row column_to_inverse of
        Inl e \<Rightarrow> Inl e
      | Inr v \<Rightarrow> (case py_neg v of
                   Inl e \<Rightarrow> Inl e
                 | Inr w \<Rightarrow> Inr [setitem row column_to_inverse w]))"

text \<open>
  \<^verbatim>\<open>
  class Map(Operation):
      def __call__(self, rows, *args, **kwargs):
          for row in rows:
              res = self.mapper(row)
              for el in res:
                  yield el
  \<close>
\<close>

fun Map :: "mapper \<Rightarrow> row list \<Rightarrow> error + row list" where
  "Map mapper [] = Inr []"
| "Map mapper (row # rows) =
     (case mapper row of
        Inl e \<Rightarrow> Inl e
      | Inr res \<Rightarrow> (case Map mapper rows of
                     Inl e \<Rightarrow> Inl e
                   | Inr rest \<Rightarrow> Inr (res @ rest)))"

text \<open>
  \<^verbatim>\<open>str.isspace\<close> on one character, for the code points below 256: the ASCII
  whitespace, the four separators \<^verbatim>\<open>\x1c\<close> to \<^verbatim>\<open>\x1f\<close>, \<^verbatim>\<open>\x85\<close> and \<^verbatim>\<open>\xa0\<close>.
\<close>

definition is_space :: "char \<Rightarrow> bool" where
  "is_space c = (c \<in> set [CHR 0x09, CHR 0x0A, CHR 0x0B, CHR 0x0C, CHR 0x0D,
       CHR 0x1C, CHR 0x1D, CHR 0x1E, CHR 0x1F, CHR '' '', CHR 0x85, CHR 0xA0])"

text \<open>
  \<^verbatim>\<open>s.split()\<close> with no argument: the maximal runs of non-whitespace characters,
  left to right; no empty token. The first argument is the token being read.
\<close>

fun split_ws :: "string \<Rightarrow> string \<Rightarrow> string list" where
  "split_ws cur [] = (if cur = [] then [] else [cur])"
| "split_ws cur (c # cs) =
     (if is_space c then (if cur = [] then split_ws [] cs else cur # split_ws [] cs)
      else split_ws (cur @ [c]) cs)"

definition str_split :: "string \<Rightarrow> string list" where
  "str_split s = split_ws [] s"

text \<open>
  \<^verbatim>\<open>
  class Split(Mapper):
      """Split row on multiple rows by separator"""
      def __init__(self, column, separator=None):
          self.column = column
          self.separator = separator
      def __call__(self, row):
          values = row[self.column].split()
          for value in values:
              new_row = row.copy()
              new_row[self.column] = value
              yield new_row
  \<close>
  \<^verbatim>\<open>__call__\<close> never reads \<^verbatim>\<open>self.separator\<close>. A value that is not a string has no
  \<^verbatim>\<open>split\<close>: \<^verbatim>\<open>AttributeError\<close>.
\<close>

definition Split :: "string \<Rightarrow> string option \<Rightarrow> mapper" where
  "Split column separator row =
     (case getitem row column of
        Inl e \<Rightarrow> Inl e
      | Inr (VStr s) \<Rightarrow> Inr (map (\<lambda>value. setitem row column (VStr value)) (str_split s))
      | Inr _ \<Rightarrow> Inl AttributeError)"

section \<open>Grouping and Reduce\<close>

text \<open>
  Results are chained as generators chain them: the rows of the first, then the
  rows of the second; the first exception ends the stream.
\<close>

fun cat :: "error + 'a list \<Rightarrow> error + 'a list \<Rightarrow> error + 'a list" where
  "cat (Inl e) _ = Inl e"
| "cat (Inr xs) (Inl e) = Inl e"
| "cat (Inr xs) (Inr ys) = Inr (xs @ ys)"

fun collect :: "(error + 'a list) list \<Rightarrow> error + 'a list" where
  "collect [] = Inr []"
| "collect (r # rs) = cat r (collect rs)"

text \<open>The grouping key \<^verbatim>\<open>[row[key] for key in self.keys]\<close>.\<close>

fun key_of :: "string list \<Rightarrow> row \<Rightarrow> error + val list" where
  "key_of [] row = Inr []"
| "key_of (key # keys) row =
     (case getitem row key of
        Inl e \<Rightarrow> Inl e
      | Inr v \<Rightarrow> (case key_of keys row of Inl e \<Rightarrow> Inl e | Inr vs \<Rightarrow> Inr (v # vs)))"

text \<open>
  \<^verbatim>\<open>itertools.groupby(rows, key)\<close>: the stream cut into runs of adjacent elements
  with equal (\<^verbatim>\<open>==\<close>) keys, each run with its key. A row joins the run that
  starts right after it when their keys are equal and starts a run of its own
  otherwise. Equality of the keys stands for \<^verbatim>\<open>==\<close>, which it is for keys that hold no
  \<^verbatim>\<open>nan\<close>; \<open>Join_loop\<close> below compares group keys in the same way.
\<close>

fun groupby :: "('a \<Rightarrow> error + 'k) \<Rightarrow> 'a list \<Rightarrow> error + ('k \<times> 'a list) list" where
  "groupby key [] = Inr []"
| "groupby key (x # xs) =
     (case key x of
        Inl e \<Rightarrow> Inl e
      | Inr k \<Rightarrow>
         (case groupby key xs of
            Inl e \<Rightarrow> Inl e
          | Inr [] \<Rightarrow> Inr [(k, [x])]
          | Inr ((k', g) # gs) \<Rightarrow>
              if k = k' then Inr ((k, x # g) # gs) else Inr ((k, [x]) # (k', g) # gs)))"

text \<open>
  A reducer is its \<^verbatim>\<open>__call__\<close>: the key names and the rows of one group in, the
  rows it yields out.
  \<^verbatim>\<open>
  class Reduce(Operation):
      def __call__(self, rows, *args, **kwargs):
          for key, group in groupby(rows, key=lambda row: [row[key] for key in self.keys]):
              for el in self.reducer(tuple(self.keys), group):
                  yield el
  \<close>
\<close>

type_synonym reducer = "string list \<Rightarrow> row list \<Rightarrow> error + row list"

definition Reduce :: "reducer \<Rightarrow> string list \<Rightarrow> row list \<Rightarrow> error + row list" where
  "Reduce reducer keys rows =
     (case groupby (key_of keys) rows of
        Inl e \<Rightarrow> Inl e
      | Inr groups \<Rightarrow> collect (map (\<lambda>(key, group). reducer keys group) groups))"

text \<open>
  \<^verbatim>\<open>
  class FirstReducer(Reducer):
      def __call__(self, group_key, rows):
          for row in rows:
              yield row
              break
  \<close>
\<close>

fun FirstReducer :: reducer where
  "FirstReducer group_key [] = Inr []"
| "FirstReducer group_key (row # rows) = Inr [row]"

text \<open>
  \<^verbatim>\<open>
  class Count(Reducer):
      def __call__(self, group_key, rows):
          ans = {}
          num_rows = 0
          for row in rows:
              if not ans:
                  for key in group_key:
                      ans[key] = row[key]
              num_rows += 1
          ans[self.column] = num_rows
          yield ans
  \<close>
  \<open>Count_loop\<close> is the \<^verbatim>\<open>for\<close> loop, with \<open>ans\<close> and \<open>num_rows\<close> as its state;
  \<open>Count_keys\<close> is the inner loop over \<open>group_key\<close>.
\<close>

fun Count_keys :: "string list \<Rightarrow> row \<Rightarrow> row \<Rightarrow> error + row" where
  "Count_keys [] row ans = Inr ans"
| "Count_keys (key # keys) row ans =
     (case getitem row key of
        Inl e \<Rightarrow> Inl e
      | Inr v \<Rightarrow> Count_keys keys row (setitem ans key v))"

fun Count_loop :: "string list \<Rightarrow> row list \<Rightarrow> row \<Rightarrow> int \<Rightarrow> error + (row \<times> int)" where
  "Count_loop group_key [] ans num_rows = Inr (ans, num_rows)"
| "Count_loop group_key (row # rows) ans num_rows =
     (if ans = [] then
        (case Count_keys group_key row ans of
           Inl e \<Rightarrow> Inl e
         | Inr ans' \<Rightarrow> Count_loop group_key rows ans' (num_rows + 1))
      else Count_loop group_key rows ans (num_rows + 1))"

definition Count :: "string \<Rightarrow> reducer" where
  "Count column group_key rows =
     (case Count_loop group_key rows [] 0 of
        Inl e \<Rightarrow> Inl e
      | Inr (ans, num_rows) \<Rightarrow> Inr [setitem ans column (VInt num_rows)])"

section \<open>Comparing values and keys\<close>

text \<open>
  \<^verbatim>\<open>a < b\<close> on numbers: by value, \<^verbatim>\<open>-inf\<close> below and \<^verbatim>\<open>inf\<close> above every other number;
  false whenever \<^verbatim>\<open>nan\<close> takes part.
\<close>

fun num_lt :: "num \<Rightarrow> num \<Rightarrow> bool" where
  "num_lt Nan b = False"
| "num_lt a Nan = False"
| "num_lt PosInf b = False"
| "num_lt a NegInf = False"
| "num_lt NegInf b = True"
| "num_lt a PosInf = True"
| "num_lt (Finite x) (Finite y) = (x < y)"

text \<open>
  \<^verbatim>\<open>a < b\<close> on values: numbers by value, strings by code points, \<^verbatim>\<open>TypeError\<close>
  (\<open>None\<close> here) between a number and a string and wherever \<^verbatim>\<open>None\<close> takes
  part.
\<close>

fun val_lt :: "val \<Rightarrow> val \<Rightarrow> bool option" where
  "val_lt (VNum a) (VNum b) = Some (num_lt a b)"
| "val_lt (VStr a) (VStr b) = Some (a < b)"
| "val_lt _ _ = None"

text \<open>
  \<^verbatim>\<open>key_a < key_b\<close> on two lists: the first position where the elements differ
  (\<^verbatim>\<open>==\<close>) decides, by \<^verbatim>\<open><\<close> on these two elements; with no such position the
  shorter list is the smaller.
\<close>

fun key_lt :: "val list \<Rightarrow> val list \<Rightarrow> bool option" where
  "key_lt [] [] = Some False"
| "key_lt [] (y # ys) = Some True"
| "key_lt (x # xs) [] = Some False"
| "key_lt (x # xs) (y # ys) = (if py_eq x y then key_lt xs ys else val_lt x y)"

text \<open>
  The key value of a row that has every key field, and what it means for a stream
  to be sorted ascending by the key tuple: every row has the key fields, and each
  row's key value is equal to or smaller than the next row's.
\<close>

definition has_keys :: "string list \<Rightarrow> row \<Rightarrow> bool" where
  "has_keys keys row = (\<forall>k \<in> set keys. contains row k)"

definition keyvals :: "string list \<Rightarrow> row \<Rightarrow> val list" where
  "keyvals keys row = map (\<lambda>k. case map_of row k of Some v \<Rightarrow> v | None \<Rightarrow> VNone) keys"

definition key_le :: "val list \<Rightarrow> val list \<Rightarrow> bool" where
  "key_le a b = (keys_eq a b \<or> key_lt a b = Some True)"

definition sorted_by :: "string list \<Rightarrow> row list \<Rightarrow> bool" where
  "sorted_by keys rows =
     ((\<forall>row \<in> set rows. has_keys keys row)
      \<and> successively (\<lambda>r s. key_le (keyvals keys r) (keyvals keys s)) rows)"

text \<open>
  Two streams have comparable keys when \<^verbatim>\<open>==\<close> and \<^verbatim>\<open><\<close> order every key value of the
  one against every key value of the other: the two are equal, or one of them is
  smaller than the other.
\<close>

definition comparable :: "string list \<Rightarrow> row list \<Rightarrow> row list \<Rightarrow> bool" where
  "comparable keys rows_a rows_b =
     (\<forall>a \<in> set rows_a. \<forall>b \<in> set rows_b.
        keys_eq (keyvals keys a) (keyvals keys b)
        \<or> key_lt (keyvals keys a) (keyvals keys b) = Some True
        \<or> key_lt (keyvals keys b) (keyvals keys a) = Some True)"

section \<open>Joiners and Join\<close>

text \<open>
  A joiner is one of the four library strategies with its two suffixes
  (\<^verbatim>\<open>Joiner.__init__(self, suffix_a='_1', suffix_b='_2')\<close>); \<^verbatim>\<open>Join\<close> tells them
  apart by \<^verbatim>\<open>isinstance\<close>.
\<close>

datatype joiner =
    InnerJoiner string string
  | OuterJoiner string string
  | LeftJoiner string string
  | RightJoiner string string

fun a_suffix :: "joiner \<Rightarrow> string" where
  "a_suffix (InnerJoiner sa sb) = sa"
| "a_suffix (OuterJoiner sa sb) = sa"
| "a_suffix (LeftJoiner sa sb) = sa"
| "a_suffix (RightJoiner sa sb) = sa"

fun b_suffix :: "joiner \<Rightarrow> string" where
  "b_suffix (InnerJoiner sa sb) = sb"
| "b_suffix (OuterJoiner sa sb) = sb"
| "b_suffix (LeftJoiner sa sb) = sb"
| "b_suffix (RightJoiner sa sb) = sb"

text \<open>
  \<^verbatim>\<open>{k: v for k, v in items}\<close> and \<^verbatim>\<open>ans.update(d)\<close>: the items are stored one by
  one, a later value for the same name replacing the earlier one in its place.
\<close>

definition dict_update :: "row \<Rightarrow> (string \<times> val) list \<Rightarrow> row" where
  "dict_update ans items = foldl (\<lambda>d (k, v). setitem d k v) ans items"

definition dict_of :: "(string \<times> val) list \<Rightarrow> row" where
  "dict_of items = dict_update [] items"

text \<open>
  \<^verbatim>\<open>
  def get_ans(self, row_a, row_b, keys):
      ans = {key: row_a[key] for key in keys}
      ans.update({key + self._a_suffix if key in row_b else key: value
                  for key, value in row_a.items() if key not in keys})
      ans.update({key + self._b_suffix if key in row_a else key: value
                  for key, value in row_b.items() if key not in keys})
      return ans
  \<close>
  \<open>renamed\<close> is the item list of one of the two comprehensions: the non-key items of
  \<open>row\<close>, a name that the other row has too with the suffix appended.
\<close>

definition renamed :: "string \<Rightarrow> string list \<Rightarrow> row \<Rightarrow> row \<Rightarrow> (string \<times> val) list" where
  "renamed suffix keys row other =
     map (\<lambda>(key, value). (if contains other key then key @ suffix else key, value))
       (filter (\<lambda>(key, value). key \<notin> set keys) row)"

definition get_ans :: "string \<Rightarrow> string \<Rightarrow> row \<Rightarrow> row \<Rightarrow> string list \<Rightarrow> error + row" where
  "get_ans suffix_a suffix_b row_a row_b keys =
     (case key_of keys row_a of
        Inl e \<Rightarrow> Inl e
      | Inr vs \<Rightarrow>
          Inr (dict_update
                (dict_update (dict_of (zip keys vs))
                   (dict_of (renamed suffix_a keys row_a row_b)))
                (dict_of (renamed suffix_b keys row_b row_a))))"

text \<open>
  The two nested loops of the joiners, \<^verbatim>\<open>for row_a in rows_a: for row_b in
  list_rows_b: yield self.get_ans(row_a, row_b, keys)\<close>, and the loops of
  \<^verbatim>\<open>RightJoiner\<close>, which run the other way round.
\<close>

fun sequence :: "(error + 'a) list \<Rightarrow> error + 'a list" where
  "sequence [] = Inr []"
| "sequence (r # rs) =
     (case r of
        Inl e \<Rightarrow> Inl e
      | Inr x \<Rightarrow> (case sequence rs of Inl e \<Rightarrow> Inl e | Inr xs \<Rightarrow> Inr (x # xs)))"

definition pairs_a_major ::
    "string \<Rightarrow> string \<Rightarrow> string list \<Rightarrow> row list \<Rightarrow> row list \<Rightarrow> error + row list" where
  "pairs_a_major sa sb keys rows_a rows_b =
     sequence (concat (map (\<lambda>row_a. map (\<lambda>row_b. get_ans sa sb row_a row_b keys) rows_b) rows_a))"

definition pairs_b_major ::
    "string \<Rightarrow> string \<Rightarrow> string list \<Rightarrow> row list \<Rightarrow> row list \<Rightarrow> error + row list" where
  "pairs_b_major sa sb keys rows_a rows_b =
     sequence (concat (map (\<lambda>row_b. map (\<lambda>row_a. get_ans sa sb row_a row_b keys) rows_a) rows_b))"

text \<open>
  The \<^verbatim>\<open>__call__\<close> of the four joiners.
  \<^verbatim>\<open>
  class InnerJoiner:   for row_a in rows_a: for row_b in list_rows_b: yield get_ans
  class OuterJoiner:   if len(list_rows_b) == 0: yield from list_rows_a
                       elif len(list_rows_a) == 0: yield from list_rows_b
                       else: for row_a ...: for row_b ...: yield get_ans
  class LeftJoiner:    if len(list_rows_b) == 0: yield from rows_a
                       else: for row_a ...: for row_b ...: yield get_ans
  class RightJoiner:   if len(list_rows_a) == 0: yield from rows_b
                       else: for row_b ...: for row_a ...: yield get_ans
  \<close>
\<close>

fun joiner_call :: "joiner \<Rightarrow> string list \<Rightarrow> row list \<Rightarrow> row list \<Rightarrow> error + row list" where
  "joiner_call (InnerJoiner sa sb) keys rows_a rows_b = pairs_a_major sa sb keys rows_a rows_b"
| "joiner_call (OuterJoiner sa sb) keys rows_a rows_b =
     (if length rows_b = 0 then Inr rows_a
      else if length rows_a = 0 then Inr rows_b
      else pairs_a_major sa sb keys rows_a rows_b)"
| "joiner_call (LeftJoiner sa sb) keys rows_a rows_b =
     (if length rows_b = 0 then Inr rows_a
      else pairs_a_major sa sb keys rows_a rows_b)"
| "joiner_call (RightJoiner sa sb) keys rows_a rows_b =
     (if length rows_a = 0 then Inr rows_b
      else pairs_b_major sa sb keys rows_a rows_b)"

text \<open>
  \<^verbatim>\<open>isinstance(self.joiner, LeftJoiner | OuterJoiner)\<close> and
  \<^verbatim>\<open>isinstance(self.joiner, RightJoiner | OuterJoiner)\<close>.
\<close>

fun is_left_or_outer :: "joiner \<Rightarrow> bool" where
  "is_left_or_outer (LeftJoiner sa sb) = True"
| "is_left_or_outer (OuterJoiner sa sb) = True"
| "is_left_or_outer _ = False"

fun is_right_or_outer :: "joiner \<Rightarrow> bool" where
  "is_right_or_outer (RightJoiner sa sb) = True"
| "is_right_or_outer (OuterJoiner sa sb) = True"
| "is_right_or_outer _ = False"

text \<open>
  \<^verbatim>\<open>Join.__call__\<close>, on the two streams of groups.
  \<^verbatim>\<open>
  while key_a is not None and key_b is not None and ...:
      if key_a == key_b:
          for el in self.joiner(self.keys, group_a, group_b): yield el
          advance a; advance b
      elif key_a < key_b:
          if isinstance(self.joiner, LeftJoiner | OuterJoiner):
              for el in self.joiner(self.keys, group_a, []): yield el
          advance a
      else:
          if isinstance(self.joiner, RightJoiner | OuterJoiner):
              for el in self.joiner(self.keys, [], group_b): yield el
          advance b
  while group_a is not None:
      if isinstance(self.joiner, LeftJoiner | OuterJoiner):
          for el in self.joiner(self.keys, group_a, []): yield el
      advance a
  while group_b is not None:
      if isinstance(self.joiner, RightJoiner | OuterJoiner):
          for el in self.joiner(self.keys, [], group_b): yield el
      advance b
  \<close>
  \<open>unmatched_a\<close> and \<open>unmatched_b\<close> are the two guarded emissions, \<open>drain_a\<close> and
  \<open>drain_b\<close> the last two loops, \<open>Join_loop\<close> the first loop followed by them.
\<close>

definition unmatched_a :: "joiner \<Rightarrow> string list \<Rightarrow> row list \<Rightarrow> error + row list" where
  "unmatched_a j keys group_a =
     (if is_left_or_outer j then joiner_call j keys group_a [] else Inr [])"

definition unmatched_b :: "joiner \<Rightarrow> string list \<Rightarrow> row list \<Rightarrow> error + row list" where
  "unmatched_b j keys group_b =
     (if is_right_or_outer j then joiner_call j keys [] group_b else Inr [])"

fun drain_a :: "joiner \<Rightarrow> string list \<Rightarrow> (val list \<times> row list) list \<Rightarrow> error + row list" where
  "drain_a j keys [] = Inr []"
| "drain_a j keys ((key_a, group_a) # gas) = cat (unmatched_a j keys group_a) (drain_a j keys gas)"

fun drain_b :: "joiner \<Rightarrow> string list \<Rightarrow> (val list \<times> row list) list \<Rightarrow> error + row list" where
  "drain_b j keys [] = Inr []"
| "drain_b j keys ((key_b, group_b) # gbs) = cat (unmatched_b j keys group_b) (drain_b j keys gbs)"

fun Join_loop ::
    "joiner \<Rightarrow> string list \<Rightarrow> (val list \<times> row list) list \<Rightarrow> (val list \<times> row list) list
      \<Rightarrow> error + row list" where
  "Join_loop j keys [] gbs = cat (drain_a j keys []) (drain_b j keys gbs)"
| "Join_loop j keys ((key_a, group_a) # gas) [] =
     cat (drain_a j keys ((key_a, group_a) # gas)) (drain_b j keys [])"
| "Join_loop j keys ((key_a, group_a) # gas) ((key_b, group_b) # gbs) =
     (if key_a = key_b then
        cat (joiner_call j keys group_a group_b) (Join_loop j keys gas gbs)
      else
        (case key_lt key_a key_b of
           None \<Rightarrow> Inl TypeError
         | Some True \<Rightarrow>
             cat (unmatched_a j keys group_a) (Join_loop j keys gas ((key_b, group_b) # gbs))
         | Some False \<Rightarrow>
             cat (unmatched_b j keys group_b) (Join_loop j keys ((key_a, group_a) # gas) gbs)))"

definition Join :: "joiner \<Rightarrow> string list \<Rightarrow> row list \<Rightarrow> row list \<Rightarrow> error + row list" where
  "Join j keys rows_a rows_b =
     (case groupby (key_of keys) rows_a of
        Inl e \<Rightarrow> Inl e
      | Inr gas \<Rightarrow>
         (case groupby (key_of keys) rows_b of
            Inl e \<Rightarrow> Inl e
          | Inr gbs \<Rightarrow> Join_loop j keys gas gbs))"

text \<open>
  The runs \<open>groupby\<close> returns when the key function raises on no element: \<open>runs f\<close>
  is \<open>groupby\<close> for a key function \<open>f\<close> that cannot fail.
\<close>

fun runs :: "('a \<Rightarrow> 'k) \<Rightarrow> 'a list \<Rightarrow> ('k \<times> 'a list) list" where
  "runs f [] = []"
| "runs f (x # xs) =
     (case runs f xs of
        [] \<Rightarrow> [(f x, [x])]
      | (k', g) # gs \<Rightarrow> if f x = k' then (f x, x # g) # gs else (f x, [x]) # (k', g) # gs)"

text \<open>
  \<open>key_less a b\<close>: \<^verbatim>\<open>a < b\<close> is defined and true. \<open>grouped kv gs\<close>: what \<open>groupby\<close>
  returns on a sorted stream, groups that are not empty, each under the key value
  of its rows, the key values strictly ascending.
\<close>

definition key_less :: "val list \<Rightarrow> val list \<Rightarrow> bool" where
  "key_less a b = (key_lt a b = Some True)"

definition grouped :: "(row \<Rightarrow> val list) \<Rightarrow> (val list \<times> row list) list \<Rightarrow> bool" where
  "grouped kv gs =
     ((\<forall>(k, g) \<in> set gs. g \<noteq> [] \<and> (\<forall>r \<in> set g. kv r = k))
      \<and> sorted_wrt key_less (map fst gs))"

text \<open>
  The row \<open>get_ans\<close> returns for a \<open>row_a\<close> that has every key field.
\<close>

definition merged :: "string \<Rightarrow> string \<Rightarrow> string list \<Rightarrow> row \<Rightarrow> row \<Rightarrow> row" where
  "merged suffix_a suffix_b keys row_a row_b =
     dict_update
       (dict_update (dict_of (zip keys (keyvals keys row_a)))
          (dict_of (renamed suffix_a keys row_a row_b)))
       (dict_of (renamed suffix_b keys row_b row_a))"

text \<open>
  The rows of a stream below, at and above a key value. In a sorted stream the
  rows at \<open>k\<close> are the group of \<open>k\<close>.
\<close>

definition rows_below :: "string list \<Rightarrow> val list \<Rightarrow> row list \<Rightarrow> row list" where
  "rows_below keys k rows = filter (\<lambda>r. key_less (keyvals keys r) k) rows"

definition rows_at :: "string list \<Rightarrow> val list \<Rightarrow> row list \<Rightarrow> row list" where
  "rows_at keys k rows = filter (\<lambda>r. keyvals keys r = k) rows"

definition rows_above :: "string list \<Rightarrow> val list \<Rightarrow> row list \<Rightarrow> row list" where
  "rows_above keys k rows = filter (\<lambda>r. key_less k (keyvals keys r)) rows"

text \<open>
  The field names of a joined row as the column collision rule gives them: the key
  names, then the names of the other fields of the left row, then those of the right
  row, a name that both rows have with the suffix of its side appended.
\<close>

definition joined_names :: "string \<Rightarrow> string \<Rightarrow> string list \<Rightarrow> row \<Rightarrow> row \<Rightarrow> string list" where
  "joined_names suffix_a suffix_b keys row_a row_b =
     keys
     @ map (\<lambda>name. if contains row_b name then name @ suffix_a else name)
         (filter (\<lambda>name. name \<notin> set keys) (map fst row_a))
     @ map (\<lambda>name. if contains row_a name then name @ suffix_b else name)
         (filter (\<lambda>name. name \<notin> set keys) (map fst row_b))"

text \<open>
  The default suffixes of \<^verbatim>\<open>Joiner.__init__(self, suffix_a='_1', suffix_b='_2')\<close>.
\<close>

definition default_suffix_a :: string where
  "default_suffix_a = ''_1''"

definition default_suffix_b :: string where
  "default_suffix_b = ''_2''"

section \<open>The external sort\<close>

text \<open>
  Modelled from the spec: the module \<^verbatim>\<open>external_sort\<close> (class \<^verbatim>\<open>ExternalSort\<close>, which
  \<^verbatim>\<open>Graph.sort\<close> instantiates) is not among the sources. The specification gives its
  algorithm in four steps; the first three are modelled here, the fourth (cleanup of
  temporary files) has no effect on the rows.

  Run generation: "Accumulate rows into an in-memory buffer up to a configurable
  byte or row budget; when the budget is reached, stably sort the buffer by the key
  and write it as a run to a temporary file. Repeat until input is exhausted. Final
  partial buffer becomes the last run." The budget is a number of rows; a buffer
  holds at least one row. The stable sort of one buffer is \<open>sort_key\<close>.
\<close>

function chunks :: "nat \<Rightarrow> 'a list \<Rightarrow> 'a list list" where
  "chunks budget xs =
     (if xs = [] then []
      else take (max 1 budget) xs # chunks budget (drop (max 1 budget) xs))"
  by pat_completeness auto
termination
  by (relation "measure (\<lambda>(budget, xs). length xs)") auto

definition run_generation :: "('a \<Rightarrow> 'k::linorder) \<Rightarrow> nat \<Rightarrow> 'a list \<Rightarrow> 'a list list" where
  "run_generation key budget xs = map (sort_key key) (chunks budget xs)"

text \<open>
  Modelled from the spec: K-way merge. "Open all runs; maintain a priority queue
  keyed by (key-value, run-index) - the run-index tiebreak preserves stability
  because runs are emitted in generation order. Pop the smallest, yield its row,
  advance that run; repeat until empty." \<open>queue\<close> is the content of the priority
  queue, one entry for every run that is not exhausted: the key value of its next
  row and its index. Pairs are ordered lexicographically.
\<close>

definition queue :: "('a \<Rightarrow> 'k) \<Rightarrow> 'a list list \<Rightarrow> ('k \<times> nat) list" where
  "queue key rs =
     map (\<lambda>(i, r). (key (hd r), i)) (filter (\<lambda>(i, r). r \<noteq> []) (enumerate 0 rs))"

function k_way_merge :: "('a \<Rightarrow> 'k::linorder) \<Rightarrow> 'a list list \<Rightarrow> 'a list" where
  "k_way_merge key rs =
     (if queue key rs = [] then []
      else (case Min (set (queue key rs)) of
              (k, i) \<Rightarrow> hd (rs ! i) # k_way_merge key (rs[i := tl (rs ! i)])))"
  by pat_completeness auto
termination
proof (relation "measure (\<lambda>(key, rs). sum_list (map length rs))", goal_cases)
  case 1
  show ?case by simp
next
  case (2 key rs k i)
  have "Min (set (queue key rs)) \<in> set (queue key rs)"
    using 2(1) by (intro Min_in) auto
  with 2(2) have "(k, i) \<in> set (queue key rs)" by simp
  then have i: "i < length rs" and ne: "rs ! i \<noteq> []"
    by (auto simp: queue_def in_set_enumerate_eq)
  have "rs = take i rs @ rs ! i # drop (Suc i) rs"
    using i by (rule id_take_nth_drop)
  moreover have "rs[i := tl (rs ! i)] = take i rs @ tl (rs ! i) # drop (Suc i) rs"
    using i by (rule upd_conv_take_nth_drop)
  ultimately have "sum_list (map length (rs[i := tl (rs ! i)]))
      = sum_list (map length (take i rs)) + length (tl (rs ! i)) + sum_list (map length (drop (Suc i) rs))"
    and "sum_list (map length rs)
      = sum_list (map length (take i rs)) + length (rs ! i) + sum_list (map length (drop (Suc i) rs))"
    by (metis list.simps(9) map_append sum_list.Cons sum_list.append add.assoc)+
  moreover have "length (tl (rs ! i)) < length (rs ! i)" using ne by (cases "rs ! i") auto
  ultimately show ?case by simp
qed

text \<open>
  Modelled from the spec: small-input fast path. "If input fits in the first buffer,
  skip spilling and yield directly from the in-memory sort."
\<close>

definition external_sort :: "('a \<Rightarrow> 'k::linorder) \<Rightarrow> nat \<Rightarrow> 'a list \<Rightarrow> 'a list" where
  "external_sort key budget xs =
     (if length xs \<le> max 1 budget then sort_key key xs
      else k_way_merge key (run_generation key budget xs))"

text \<open>
  Modelled from the spec: the sort of rows by a key tuple. "A row's key value is the
  tuple of its values at those field names, compared lexicographically"; comparing
  values of different types is "undefined behaviour (must not crash)". The model
  compares key values in a linear order that is Python's \<^verbatim>\<open><\<close> wherever that is
  defined and true (\<^verbatim>\<open>None\<close>, then \<^verbatim>\<open>nan\<close>, then the other numbers by value, then the
  strings; a key field that a row lacks counts as \<^verbatim>\<open>None\<close>), so the sort of the model
  returns on every input.
\<close>

fun val_rank :: "val \<Rightarrow> nat \<times> rat \<times> string" where
  "val_rank VNone = (0, 0, [])"
| "val_rank (VNum Nan) = (1, 0, [])"
| "val_rank (VNum NegInf) = (2, 0, [])"
| "val_rank (VNum (Finite x)) = (3, x, [])"
| "val_rank (VNum PosInf) = (4, 0, [])"
| "val_rank (VStr s) = (5, 0, s)"

definition sort_key_of :: "string list \<Rightarrow> row \<Rightarrow> (nat \<times> rat \<times> string) list" where
  "sort_key_of keys row = map val_rank (keyvals keys row)"

definition ExternalSort :: "nat \<Rightarrow> string list \<Rightarrow> row list \<Rightarrow> row list" where
  "ExternalSort budget keys rows = external_sort (sort_key_of keys) budget rows"

section \<open>Sources and the graph\<close>

text \<open>
  \<^verbatim>\<open>
  class ReadIterFactory(Operation):
      def __call__(self, *args, **kwargs):
          for row in kwargs[self.name]():
              yield row
  \<close>
  The keyword arguments of \<^verbatim>\<open>run\<close> bind names to factories; a binding is given here
  by the rows its factory serves when called. A name without binding is Python's
  \<^verbatim>\<open>KeyError\<close>: \<^verbatim>\<open>kwargs\<close> is a dict.
\<close>

type_synonym kwargs = "string \<rightharpoonup> row list"

definition ReadIterFactory_call :: "string \<Rightarrow> kwargs \<Rightarrow> error + row list" where
  "ReadIterFactory_call name kwargs =
     (case kwargs name of None \<Rightarrow> Inl (KeyError name) | Some rows \<Rightarrow> Inr rows)"

text \<open>
  \<^verbatim>\<open>
  class Read(Operation):
      def __call__(self, *args, **kwargs):
          with open(self.filename) as f:
              for line in f:
                  parsed = self.parser(line)
                  if isinstance(parsed, list):
                      yield from self.parser(line)
                  else:
                      yield self.parser(line)
  \<close>
  The file system binds the names of the readable files to their lines; a parser
  returns one row or a list of rows, or raises.
\<close>

datatype parsed = One row | Many "row list"

type_synonym parser = "string \<Rightarrow> error + parsed"

type_synonym files = "string \<rightharpoonup> string list"

fun Read_lines :: "parser \<Rightarrow> string list \<Rightarrow> error + row list" where
  "Read_lines parser [] = Inr []"
| "Read_lines parser (line # lines) =
     (case parser line of
        Inl e \<Rightarrow> Inl e
      | Inr (One row) \<Rightarrow> cat (Inr [row]) (Read_lines parser lines)
      | Inr (Many rows) \<Rightarrow> cat (Inr rows) (Read_lines parser lines))"

definition Read_call :: "files \<Rightarrow> string \<Rightarrow> parser \<Rightarrow> error + row list" where
  "Read_call files filename parser =
     (case files filename of None \<Rightarrow> Inl IOError | Some lines \<Rightarrow> Read_lines parser lines)"

text \<open>
  The operations a graph holds in its \<^verbatim>\<open>op\<close>. \<^verbatim>\<open>AddOperation(first, second)\<close> has as
  \<open>first\<close> one of \<^verbatim>\<open>Map(mapper)\<close>, \<^verbatim>\<open>Reduce(reducer, keys)\<close> and
  \<^verbatim>\<open>ExternalSort(keys)\<close> (a \<open>stage\<close>) and as \<open>second\<close> the \<^verbatim>\<open>op\<close> of the graph it was
  built from. \<^verbatim>\<open>GraphsJoiner(Join(joiner, keys), g1, g2)\<close> keeps the two graphs and
  calls their \<^verbatim>\<open>run\<close>, which calls their \<^verbatim>\<open>op\<close>; no method assigns to the \<^verbatim>\<open>op\<close> of an
  existing graph, so the model keeps the two \<^verbatim>\<open>op\<close>s.
\<close>

datatype stage =
    Map_stage mapper
  | Reduce_stage reducer "string list"
  | Sort_stage "string list"

datatype operation =
    ReadIterFactory string
  | Read string parser
  | AddOperation stage operation
  | GraphsJoiner joiner "string list" operation operation

text \<open>
  Calling an operation with the keyword arguments of \<^verbatim>\<open>run\<close>.
  \<^verbatim>\<open>
  class AddOperation:  yield from self.first(self.second(**kwargs))
  class GraphsJoiner:  yield from self.joiner(self.g1.run(**kwargs), self.g2.run(**kwargs))
  \<close>
  The result is the list of the rows of the stream consumed to its end, or an
  exception that consuming it raises. Generators are lazy: when several parts of a
  graph raise, Python reports the one that the pulls reach first; the model reports
  the one furthest upstream, and the left one of a join. The buffer budget of the
  sort and the file system are parameters.
\<close>

fun stage_call :: "nat \<Rightarrow> stage \<Rightarrow> row list \<Rightarrow> error + row list" where
  "stage_call budget (Map_stage mapper) rows = Map mapper rows"
| "stage_call budget (Reduce_stage reducer keys) rows = Reduce reducer keys rows"
| "stage_call budget (Sort_stage keys) rows = Inr (ExternalSort budget keys rows)"

fun call :: "nat \<Rightarrow> files \<Rightarrow> operation \<Rightarrow> kwargs \<Rightarrow> error + row list" where
  "call budget files (ReadIterFactory name) kwargs = ReadIterFactory_call name kwargs"
| "call budget files (Read filename parser) kwargs = Read_call files filename parser"
| "call budget files (AddOperation first second) kwargs =
     (case call budget files second kwargs of
        Inl e \<Rightarrow> Inl e
      | Inr rows \<Rightarrow> stage_call budget first rows)"
| "call budget files (GraphsJoiner joiner keys g1 g2) kwargs =
     (case call budget files g1 kwargs of
        Inl e \<Rightarrow> Inl e
      | Inr rows_a \<Rightarrow>
          (case call budget files g2 kwargs of
             Inl e \<Rightarrow> Inl e
           | Inr rows_b \<Rightarrow> Join joiner keys rows_a rows_b))"

text \<open>
  Graph objects. A \<^verbatim>\<open>Graph\<close> is an object with the one attribute \<^verbatim>\<open>op\<close>; the heap
  lists the \<^verbatim>\<open>op\<close> of every graph built so far, and a reference to a graph is its
  position in the heap. Every builder method is
  \<^verbatim>\<open>graph = Graph(); graph.op = ...; return graph\<close>: \<open>new_graph\<close>.
  \<^verbatim>\<open>
  def graph_from_iter(name):        graph.op = ops.ReadIterFactory(name)
  def graph_from_file(filename, parser):  graph.op = ops.Read(filename, parser)
  def map(self, mapper):            graph.op = ops.AddOperation(ops.Map(mapper), self.op)
  def reduce(self, reducer, keys):  graph.op = ops.AddOperation(ops.Reduce(reducer, keys), self.op)
  def sort(self, keys):             graph.op = ops.AddOperation(ext_sort.ExternalSort(keys), self.op)
  def join(self, joiner, join_graph, keys):
                                    graph.op = GraphsJoiner(ops.Join(joiner, keys), self, join_graph)
  def run(self, **kwargs):          yield from self.op(**kwargs)
  \<close>
\<close>

type_synonym heap = "operation list"

definition new_graph :: "heap \<Rightarrow> operation \<Rightarrow> nat \<times> heap" where
  "new_graph h op = (length h, h @ [op])"

definition graph_from_iter :: "heap \<Rightarrow> string \<Rightarrow> nat \<times> heap" where
  "graph_from_iter h name = new_graph h (ReadIterFactory name)"

definition graph_from_file :: "heap \<Rightarrow> string \<Rightarrow> parser \<Rightarrow> nat \<times> heap" where
  "graph_from_file h filename parser = new_graph h (Read filename parser)"

definition Graph_map :: "heap \<Rightarrow> nat \<Rightarrow> mapper \<Rightarrow> nat \<times> heap" where
  "Graph_map h self mapper = new_graph h (AddOperation (Map_stage mapper) (h ! self))"

definition Graph_reduce :: "heap \<Rightarrow> nat \<Rightarrow> reducer \<Rightarrow> string list \<Rightarrow> nat \<times> heap" where
  "Graph_reduce h self reducer keys =
     new_graph h (AddOperation (Reduce_stage reducer keys) (h ! self))"

definition Graph_sort :: "heap \<Rightarrow> nat \<Rightarrow> string list \<Rightarrow> nat \<times> heap" where
  "Graph_sort h self keys = new_graph h (AddOperation (Sort_stage keys) (h ! self))"

definition Graph_join :: "heap \<Rightarrow> nat \<Rightarrow> joiner \<Rightarrow> nat \<Rightarrow> string list \<Rightarrow> nat \<times> heap" where
  "Graph_join h self joiner join_graph keys =
     new_graph h (GraphsJoiner joiner keys (h ! self) (h ! join_graph))"

definition run :: "nat \<Rightarrow> files \<Rightarrow> heap \<Rightarrow> nat \<Rightarrow> kwargs \<Rightarrow> error + row list" where
  "run budget files h self kwargs = call budget files (h ! self) kwargs"

text \<open>
  The names of the named iterator sources of an operation, and the source that the
  first pull reaches: the leftmost leaf.
\<close>

fun iter_sources :: "operation \<Rightarrow> string set" where
  "iter_sources (ReadIterFactory name) = {name}"
| "iter_sources (Read filename parser) = {}"
| "iter_sources (AddOperation first second) = iter_sources second"
| "iter_sources (GraphsJoiner joiner keys g1 g2) = iter_sources g1 \<union> iter_sources g2"

fun first_source :: "operation \<Rightarrow> operation" where
  "first_source (ReadIterFactory name) = ReadIterFactory name"
| "first_source (Read filename parser) = Read filename parser"
| "first_source (AddOperation first second) = first_source second"
| "first_source (GraphsJoiner joiner keys g1 g2) = first_source g1"

section \<open>Row objects that outlast a run\<close>

text \<open>
  A factory may serve the same row objects on every call (\<^verbatim>\<open>lambda: iter(rows)\<close>
  over a list the caller keeps). The rows then live in a store that outlasts the
  run, and a mapper that assigns to the row it is given changes the stored row:
  \<^verbatim>\<open>ReadIterFactory\<close> yields the stored objects themselves and \<^verbatim>\<open>Map\<close> hands each to
  the mapper. For the graph \<^verbatim>\<open>graph_from_iter(name).map(mapper)\<close> this is modelled with
  the store as the list of the row objects in the order served. An in-place mapper
  returns the row object as it is after the call, next to the rows it yields.
  \<^verbatim>\<open>
  class Inverse(Mapper):
      def __call__(self, row):
          row[self.column_to_inverse] = -row[self.column_to_inverse]
          yield row
  \<close>
  assigns to \<open>row\<close> and yields that same object.
\<close>

type_synonym store = "row list"

type_synonym inplace_mapper = "row \<Rightarrow> error + (row \<times> row list)"

definition Inverse_inplace :: "string \<Rightarrow> inplace_mapper" where
  "Inverse_inplace column_to_inverse row =
     (case getitem row column_to_inverse of
        Inl e \<Rightarrow> Inl e
      | Inr v \<Rightarrow> (case py_neg v of
                   Inl e \<Rightarrow> Inl e
                 | Inr w \<Rightarrow> Inr (setitem row column_to_inverse w,
                                 [setitem row column_to_inverse w])))"

text \<open>The rows an in-place mapper yields: the mapper, seen from downstream.\<close>

definition yields :: "inplace_mapper \<Rightarrow> mapper" where
  "yields m row = (case m row of Inl e \<Rightarrow> Inl e | Inr (row', rows) \<Rightarrow> Inr rows)"

text \<open>
  One run of \<^verbatim>\<open>graph_from_iter(name).map(mapper)\<close> over the store: the store after the
  run and the rows yielded, each with the content it has when yielded.
\<close>

fun Map_shared :: "inplace_mapper \<Rightarrow> store \<Rightarrow> error + (store \<times> row list)" where
  "Map_shared m [] = Inr ([], [])"
| "Map_shared m (row # rows) =
     (case m row of
        Inl e \<Rightarrow> Inl e
      | Inr (row', res) \<Rightarrow>
          (case Map_shared m rows of
             Inl e \<Rightarrow> Inl e
           | Inr (rows', rest) \<Rightarrow> Inr (row' # rows', res @ rest)))"


section \<open>The heap queue and TopN\<close>

text \<open>
  \<^verbatim>\<open>heapq\<close> of the Python library, as \<^verbatim>\<open>TopN\<close> uses it: a binary heap in a list, the
  smallest element first. The comparison \<^verbatim>\<open><\<close> of the elements is a parameter that may
  be undefined (\<^verbatim>\<open>TypeError\<close>).
  \<^verbatim>\<open>
  def _siftdown(heap, startpos, pos):
      newitem = heap[pos]
      while pos > startpos:
          parentpos = (pos - 1) >> 1
          parent = heap[parentpos]
          if newitem < parent:
              heap[pos] = parent
              pos = parentpos
              continue
          break
      heap[pos] = newitem

  def _siftup(heap, pos):
      endpos = len(heap)
      startpos = pos
      newitem = heap[pos]
      childpos = 2*pos + 1
      while childpos < endpos:
          rightpos = childpos + 1
          if rightpos < endpos and not heap[childpos] < heap[rightpos]:
              childpos = rightpos
          heap[pos] = heap[childpos]
          pos = childpos
          childpos = 2*pos + 1
      heap[pos] = newitem
      _siftdown(heap, startpos, pos)

  def heappush(heap, item):
      heap.append(item)
      _siftdown(heap, 0, len(heap)-1)

  def heappop(heap):
      lastelt = heap.pop()
      if heap:
          returnitem = heap[0]
          heap[0] = lastelt
          _siftup(heap, 0)
          return returnitem
      return lastelt
  \<close>
  \<open>siftdown\<close> is the loop of \<^verbatim>\<open>_siftdown\<close> with \<open>newitem\<close> as a parameter and its last
  assignment; \<open>siftup_loop\<close> is the loop of \<^verbatim>\<open>_siftup\<close>, which returns the list and the
  position of the leaf it ends at.
\<close>

function siftdown :: "('a \<Rightarrow> 'a \<Rightarrow> bool option) \<Rightarrow> 'a list \<Rightarrow> nat \<Rightarrow> 'a \<Rightarrow> nat \<Rightarrow> error + 'a list" where
  "siftdown lt heap startpos newitem pos =
     (if pos > startpos then
        (case lt newitem (heap ! ((pos - 1) div 2)) of
           None \<Rightarrow> Inl TypeError
         | Some True \<Rightarrow>
             siftdown lt (heap[pos := heap ! ((pos - 1) div 2)]) startpos newitem ((pos - 1) div 2)
         | Some False \<Rightarrow> Inr (heap[pos := newitem]))
      else Inr (heap[pos := newitem]))"
  by pat_completeness auto
termination
  by (relation "measure (\<lambda>(lt, heap, startpos, newitem, pos). pos)") auto

function siftup_loop :: "('a \<Rightarrow> 'a \<Rightarrow> bool option) \<Rightarrow> 'a list \<Rightarrow> nat \<Rightarrow> error + ('a list \<times> nat)" where
  "siftup_loop lt heap pos =
     (if 2 * pos + 1 < length heap then
        (if 2 * pos + 2 < length heap then
           (case lt (heap ! (2 * pos + 1)) (heap ! (2 * pos + 2)) of
              None \<Rightarrow> Inl TypeError
            | Some True \<Rightarrow> siftup_loop lt (heap[pos := heap ! (2 * pos + 1)]) (2 * pos + 1)
            | Some False \<Rightarrow> siftup_loop lt (heap[pos := heap ! (2 * pos + 2)]) (2 * pos + 2))
         else siftup_loop lt (heap[pos := heap ! (2 * pos + 1)]) (2 * pos + 1))
      else Inr (heap, pos))"
  by pat_completeness auto
termination
  by (relation "measure (\<lambda>(lt, heap, pos). length heap - pos)") auto

definition siftup :: "('a \<Rightarrow> 'a \<Rightarrow> bool option) \<Rightarrow> 'a list \<Rightarrow> nat \<Rightarrow> error + 'a list" where
  "siftup lt heap pos =
     (case siftup_loop lt heap pos of
        Inl e \<Rightarrow> Inl e
      | Inr (heap', pos') \<Rightarrow> siftdown lt heap' pos (heap ! pos) pos')"

definition heappush :: "('a \<Rightarrow> 'a \<Rightarrow> bool option) \<Rightarrow> 'a list \<Rightarrow> 'a \<Rightarrow> error + 'a list" where
  "heappush lt heap item = siftdown lt (heap @ [item]) 0 item (length heap)"

definition heappop :: "('a \<Rightarrow> 'a \<Rightarrow> bool option) \<Rightarrow> 'a list \<Rightarrow> error + ('a \<times> 'a list)" where
  "heappop lt heap =
     (if heap = [] then Inl IndexError
      else if butlast heap \<noteq> [] then
        (case siftup lt ((butlast heap)[0 := last heap]) 0 of
           Inl e \<Rightarrow> Inl e
         | Inr heap' \<Rightarrow> Inr (hd heap, heap'))
      else Inr (last heap, []))"

text \<open>
  The comparisons behave as an order where they are defined (\<open>py_order\<close>), and are
  defined between the elements of a set (\<open>comparable_on\<close>); \<open>le_of lt a b\<close> says that
  \<open>b\<close> is not smaller than \<open>a\<close>. \<open>is_heap\<close> is the heap invariant of \<^verbatim>\<open>heapq\<close>, no element
  smaller than its parent; \<open>hole_inv\<close> is the invariant with the element at one
  position left out, and \<open>below_children\<close> says that an element is not larger than the
  children of a position.
\<close>

definition py_order :: "('a \<Rightarrow> 'a \<Rightarrow> bool option) \<Rightarrow> bool" where
  "py_order lt =
     ((\<forall>a. lt a a \<noteq> Some True)
      \<and> (\<forall>a b. lt a b = Some True \<longrightarrow> lt b a = Some False)
      \<and> (\<forall>a b. lt a b = Some False \<longrightarrow> a \<noteq> b \<longrightarrow> lt b a = Some True)
      \<and> (\<forall>a b c. lt a b = Some True \<longrightarrow> lt b c = Some True \<longrightarrow> lt a c = Some True))"

definition comparable_on :: "('a \<Rightarrow> 'a \<Rightarrow> bool option) \<Rightarrow> 'a set \<Rightarrow> bool" where
  "comparable_on lt S = (\<forall>a \<in> S. \<forall>b \<in> S. lt a b \<noteq> None)"

definition le_of :: "('a \<Rightarrow> 'a \<Rightarrow> bool option) \<Rightarrow> 'a \<Rightarrow> 'a \<Rightarrow> bool" where
  "le_of lt a b = (lt b a = Some False)"

definition is_heap :: "('a \<Rightarrow> 'a \<Rightarrow> bool option) \<Rightarrow> 'a list \<Rightarrow> bool" where
  "is_heap lt h = (\<forall>i. 0 < i \<and> i < length h \<longrightarrow> le_of lt (h ! ((i - 1) div 2)) (h ! i))"

definition hole_inv :: "('a \<Rightarrow> 'a \<Rightarrow> bool option) \<Rightarrow> 'a list \<Rightarrow> nat \<Rightarrow> bool" where
  "hole_inv lt h pos =
     ((\<forall>i. 0 < i \<and> i < length h \<and> i \<noteq> pos \<and> (i - 1) div 2 \<noteq> pos
           \<longrightarrow> le_of lt (h ! ((i - 1) div 2)) (h ! i))
      \<and> (0 < pos \<longrightarrow> (\<forall>c. 0 < c \<and> c < length h \<and> (c - 1) div 2 = pos
           \<longrightarrow> le_of lt (h ! ((pos - 1) div 2)) (h ! c))))"

definition below_children :: "('a \<Rightarrow> 'a \<Rightarrow> bool option) \<Rightarrow> 'a list \<Rightarrow> nat \<Rightarrow> 'a \<Rightarrow> bool" where
  "below_children lt h pos x =
     (\<forall>c. 0 < c \<and> c < length h \<and> (c - 1) div 2 = pos \<longrightarrow> le_of lt x (h ! c))"

section \<open>Properties\<close>

lemma VInt_eq [simp]: "VInt a = VInt b \<longleftrightarrow> a = b"
  by (simp add: VInt_def)

lemma VInt_distinct [simp]:
  "VInt a \<noteq> VNone" "VNone \<noteq> VInt a" "VInt a \<noteq> VStr s" "VStr s \<noteq> VInt a"
  "VInt a \<noteq> VNum Nan" "VNum Nan \<noteq> VInt a"
  by (simp_all add: VInt_def)

lemma py_neg_VInt [simp]: "py_neg (VInt n) = Inr (VInt (- n))"
  by (simp add: VInt_def)

lemma val_lt_VInt [simp]:
  "val_lt (VInt a) (VInt b) = Some (a < b)"
  "val_lt (VInt a) (VStr s) = None" "val_lt (VStr s) (VInt a) = None"
  "val_lt (VInt a) VNone = None" "val_lt VNone (VInt a) = None"
  by (simp_all add: VInt_def)

lemma is_nan_simps [simp]:
  "\<not> is_nan (VInt n)" "\<not> is_nan (VStr s)" "\<not> is_nan VNone" "is_nan (VNum Nan)"
  "\<not> is_nan (VNum (Finite x))" "\<not> is_nan (VNum PosInf)" "\<not> is_nan (VNum NegInf)"
  by (simp_all add: is_nan_def)

lemma py_eq_eq: "py_eq a b \<Longrightarrow> a = b"
  by (simp add: py_eq_def)

lemma py_eq_sym: "py_eq a b \<Longrightarrow> py_eq b a"
  by (auto simp: py_eq_def)

lemma py_eq_simps [simp]:
  "py_eq (VInt a) (VInt b) \<longleftrightarrow> a = b"
  "py_eq (VStr s) (VStr t) \<longleftrightarrow> s = t"
  "py_eq VNone VNone"
  "\<not> py_eq (VInt a) (VStr s)" "\<not> py_eq (VStr s) (VInt a)"
  "\<not> py_eq (VInt a) VNone" "\<not> py_eq VNone (VInt a)"
  "\<not> py_eq (VStr s) VNone" "\<not> py_eq VNone (VStr s)"
  by (simp_all add: py_eq_def)

lemma keys_eq_iff: "keys_eq a b \<longleftrightarrow> a = b \<and> (\<forall>v \<in> set a. \<not> is_nan v)"
  unfolding keys_eq_def
proof (induction a arbitrary: b)
  case Nil
  then show ?case by auto
next
  case (Cons x a)
  then show ?case by (cases b) (auto simp: py_eq_def)
qed

lemma keys_eq_eq: "keys_eq a b \<Longrightarrow> a = b"
  by (simp add: keys_eq_iff)

lemma key_le_iff:
  "key_le a b \<longleftrightarrow> (a = b \<and> (\<forall>v \<in> set a. \<not> is_nan v)) \<or> key_lt a b = Some True"
  by (simp add: key_le_def keys_eq_iff)

lemma val_rank_VInt [simp]: "val_rank (VInt n) = (3, of_int n, [])"
  by (simp add: VInt_def)

lemma map_of_update_self:
  "map_of r k = Some v \<Longrightarrow> AList.update k v r = r"
  by (induction r) (auto split: if_splits)

lemma update_update_same:
  "AList.update k v (AList.update k w r) = AList.update k v r"
  by (induction r) auto

lemma num_neg_num_neg: "num_neg (num_neg x) = x"
  by (cases x) auto

text \<open>
  Claim C9, as the code has it. For every row whose column holds a number \<open>x\<close>,
  \<open>Inverse col\<close> yields exactly one row, with \<open>- x\<close> in the column, and feeding that row
  to \<open>Inverse col\<close> again (which is what \<open>Map (Inverse col)\<close> does with the output of the
  first pass) yields one row whose value in the column is equal (\<^verbatim>\<open>==\<close>) to the original
  value exactly when \<open>x\<close> is not \<^verbatim>\<open>nan\<close>; then the row is the original row: the column at
  its original position, no other field changed.
\<close>

theorem Inverse_Inverse_identity:
  assumes "getitem row col = Inr (VNum x)"
  shows "\<exists>once twice v.
       Inverse col row = Inr [once]
     \<and> getitem once col = Inr (VNum (num_neg x))
     \<and> Map (Inverse col) [once] = Inr [twice]
     \<and> getitem twice col = Inr v
     \<and> (py_eq v (VNum x) \<longleftrightarrow> x \<noteq> Nan)
     \<and> (x \<noteq> Nan \<longrightarrow> twice = row)"
proof -
  let ?once = "setitem row col (VNum (num_neg x))"
  from assms have m: "map_of row col = Some (VNum x)"
    by (simp add: getitem_def split: option.splits)
  have a: "Inverse col row = Inr [?once]"
    using assms by (simp add: Inverse_def)
  have g: "getitem ?once col = Inr (VNum (num_neg x))"
    by (simp add: getitem_def setitem_def update_conv')
  have r: "setitem ?once col (VNum x) = row"
    using m by (simp add: setitem_def update_update_same map_of_update_self)
  have b: "Map (Inverse col) [?once] = Inr [row]"
    using g r by (simp add: Inverse_def num_neg_num_neg)
  have e: "py_eq (VNum x) (VNum x) \<longleftrightarrow> x \<noteq> Nan"
    by (simp add: py_eq_def is_nan_def)
  from a g b assms e show ?thesis by blast
qed

theorem Inverse_Inverse_identity_witness:
  "getitem [(''freq_doc'', VNum (Finite (1 / 10))), (''freq_all'', VNum (Finite (1 / 100)))] ''freq_doc''
     = Inr (VNum (Finite (1 / 10)))
   \<and> Inverse ''freq_doc'' [(''freq_doc'', VNum (Finite (1 / 10))), (''freq_all'', VNum (Finite (1 / 100)))]
       = Inr [[(''freq_doc'', VNum (Finite (- (1 / 10)))), (''freq_all'', VNum (Finite (1 / 100)))]]
   \<and> Map (Inverse ''freq_doc'')
         [[(''freq_doc'', VNum (Finite (- (1 / 10)))), (''freq_all'', VNum (Finite (1 / 100)))]]
       = Inr [[(''freq_doc'', VNum (Finite (1 / 10))), (''freq_all'', VNum (Finite (1 / 100)))]]
   \<and> py_eq (VNum (Finite (1 / 10))) (VNum (Finite (1 / 10)))
   \<and> Map (Inverse ''n'') [[(''n'', VInt 3)]] = Inr [[(''n'', VInt (- 3))]]
   \<and> Map (Inverse ''n'') [[(''n'', VInt (- 3))]] = Inr [[(''n'', VInt 3)]]"
proof -
  let ?row = "[(''freq_doc'', VNum (Finite (1 / 10))), (''freq_all'', VNum (Finite (1 / 100)))]"
  have h: "getitem ?row ''freq_doc'' = Inr (VNum (Finite (1 / 10)))"
    by (simp add: getitem_def)
  have i: "Map (Inverse ''n'') [[(''n'', VInt 3)]] = Inr [[(''n'', VInt (- 3))]]"
    "Map (Inverse ''n'') [[(''n'', VInt (- 3))]] = Inr [[(''n'', VInt 3)]]"
    by (simp_all add: Inverse_def getitem_def setitem_def)
  from Inverse_Inverse_identity[OF h] obtain once twice v where
    1: "Inverse ''freq_doc'' ?row = Inr [once]"
    and 2: "Map (Inverse ''freq_doc'') [once] = Inr [twice]"
    and 3: "getitem twice ''freq_doc'' = Inr v"
    and 4: "py_eq v (VNum (Finite (1 / 10))) \<longleftrightarrow> Finite (1 / 10) \<noteq> Nan"
    and 5: "Finite (1 / 10) \<noteq> Nan \<longrightarrow> twice = ?row"
    by blast
  from 1 have o: "once = [(''freq_doc'', VNum (Finite (- (1 / 10)))), (''freq_all'', VNum (Finite (1 / 100)))]"
    by (simp add: Inverse_def getitem_def setitem_def)
  from 5 have t: "twice = ?row" by simp
  from 3 t have "v = VNum (Finite (1 / 10))" by (simp add: getitem_def)
  with 4 have p: "py_eq (VNum (Finite (1 / 10))) (VNum (Finite (1 / 10)))" by simp
  from h 1 2 o t p i show ?thesis by simp
qed

text \<open>
  Claim C9 as stated fails for \<^verbatim>\<open>nan\<close>: the column holds \<^verbatim>\<open>nan\<close> again after the two
  passes, and \<^verbatim>\<open>nan == nan\<close> is false.
\<close>

theorem Inverse_nan_counterexample:
  "getitem [(''pmi'', VNum Nan)] ''pmi'' = Inr (VNum Nan)
   \<and> Map (Inverse ''pmi'') [[(''pmi'', VNum Nan)]] = Inr [[(''pmi'', VNum Nan)]]
   \<and> \<not> py_eq (VNum Nan) (VNum Nan)"
  by (simp add: Inverse_def getitem_def setitem_def py_eq_def)

lemma cat_Nil_right: "cat r (Inr []) = r"
  by (cases r) auto

lemma groupby_no_keys:
  "groupby (key_of []) rows = Inr (if rows = [] then [] else [([], rows)])"
  by (induction rows) auto

text \<open>
  Claim C10. With the empty key sequence every row has the key value \<open>[]\<close>: a
  non-empty stream is one group, the whole stream, and \<open>Reduce\<close> is one call of the
  reducer on it; the empty stream has no group and \<open>Reduce\<close> yields nothing without
  calling the reducer. Neither case raises for the empty key list.
\<close>

theorem Reduce_empty_keys:
  "groupby (key_of []) rows = Inr (if rows = [] then [] else [([], rows)])
   \<and> Reduce reducer [] rows = (if rows = [] then Inr [] else reducer [] rows)"
  by (simp add: Reduce_def groupby_no_keys cat_Nil_right)

lemma Split_ignores_separator:
  "Split column separator row = Split column None row"
  by (simp add: Split_def)

text \<open>
  Claim C3, on the code: \<open>Split\<close> with the separator \<^verbatim>\<open>","\<close> on the row
  \<^verbatim>\<open>{"text": "a,b"}\<close> yields the one row \<^verbatim>\<open>{"text": "a,b"}\<close>, split at whitespace,
  where the claim has the two rows with \<^verbatim>\<open>"a"\<close> and \<^verbatim>\<open>"b"\<close>.
\<close>

theorem Split_separator_failing_input:
  "Split ''text'' (Some '','') [(''text'', VStr ''a,b'')] = Inr [[(''text'', VStr ''a,b'')]]"
  by (simp add: Split_def getitem_def str_split_def is_space_def setitem_def)


lemma num_lt_irrefl: "\<not> num_lt a a"
  by (cases a) auto

lemma num_lt_asym: "num_lt a b \<Longrightarrow> \<not> num_lt b a"
  by (cases a; cases b) auto

lemma num_lt_trans: "num_lt a b \<Longrightarrow> num_lt b c \<Longrightarrow> num_lt a c"
  by (cases a; cases b; cases c) auto

lemma num_lt_total: "a \<noteq> Nan \<Longrightarrow> b \<noteq> Nan \<Longrightarrow> a \<noteq> b \<Longrightarrow> num_lt a b \<or> num_lt b a"
  by (cases a; cases b) auto

lemma val_lt_refl: "val_lt a a \<noteq> Some True"
  by (cases a) (auto simp: num_lt_irrefl)

lemma val_lt_asym: "val_lt a b = Some True \<Longrightarrow> val_lt b a = Some False"
  by (cases a; cases b) (auto dest: num_lt_asym)

lemma val_lt_total:
  "val_lt a b = Some False \<Longrightarrow> a \<noteq> b \<Longrightarrow> \<not> is_nan a \<Longrightarrow> \<not> is_nan b
    \<Longrightarrow> val_lt b a = Some True"
  using num_lt_total by (cases a; cases b) (auto simp: is_nan_def)

lemma val_lt_trans:
  "val_lt a b = Some True \<Longrightarrow> val_lt b c = Some True \<Longrightarrow> val_lt a c = Some True"
  by (cases a; cases b; cases c) (auto intro: num_lt_trans)

lemma val_lt_not_nan: "val_lt a b = Some True \<Longrightarrow> \<not> is_nan a \<and> \<not> is_nan b"
  by (cases a; cases b) (auto simp: is_nan_def elim: num_lt.elims)

lemma val_lt_neq: "val_lt a b = Some True \<Longrightarrow> a \<noteq> b"
  using val_lt_refl by auto

lemma key_lt_refl: "key_lt a a \<noteq> Some True"
  by (induction a) (auto simp: val_lt_refl)

lemma key_lt_asym: "key_lt a b = Some True \<Longrightarrow> key_lt b a = Some False"
  by (induction a b rule: key_lt.induct)
     (auto simp: val_lt_asym py_eq_def split: if_splits dest: val_lt_not_nan)

lemma key_lt_trans:
  "key_lt a b = Some True \<Longrightarrow> key_lt b c = Some True \<Longrightarrow> key_lt a c = Some True"
proof (induction a b arbitrary: c rule: key_lt.induct)
  case 1
  then show ?case by simp
next
  case (2 y ys)
  then show ?case by (cases c) (auto split: if_splits)
next
  case (3 x xs)
  then show ?case by simp
next
  case (4 x xs y ys)
  show ?case
  proof (cases c)
    case Nil
    with 4 show ?thesis by simp
  next
    case (Cons z zs)
    show ?thesis
    proof (cases "py_eq x y")
      case xy: True
      then have e: "x = y" by (rule py_eq_eq)
      show ?thesis
      proof (cases "py_eq y z")
        case True
        with xy e 4 Cons show ?thesis by simp
      next
        case False
        with xy e 4 Cons show ?thesis by simp
      qed
    next
      case xy: False
      then have 1: "val_lt x y = Some True" using 4(2) by simp
      show ?thesis
      proof (cases "py_eq y z")
        case True
        then have "y = z" by (rule py_eq_eq)
        with xy 1 Cons show ?thesis by simp
      next
        case False
        then have 2: "val_lt y z = Some True" using 4(3) Cons by simp
        have 3: "val_lt x z = Some True" by (rule val_lt_trans[OF 1 2])
        then have "\<not> py_eq x z" using val_lt_neq py_eq_eq by blast
        with 3 Cons show ?thesis by simp
      qed
    qed
  qed
qed

lemma key_lt_neq: "key_lt a b = Some True \<Longrightarrow> a \<noteq> b"
  using key_lt_refl by auto

lemma key_lt_not_keys_eq: "key_lt a b = Some True \<Longrightarrow> \<not> keys_eq a b"
  using key_lt_neq keys_eq_eq by blast

lemma groupby_runs:
  "(\<And>x. x \<in> set xs \<Longrightarrow> key x = Inr (f x)) \<Longrightarrow> groupby key xs = Inr (runs f xs)"
  by (induction xs) (auto split: list.splits)

lemma concat_runs: "concat (map snd (runs f xs)) = xs"
  by (induction xs) (auto split: list.splits)

lemma runs_Nil_iff: "runs f xs = [] \<longleftrightarrow> xs = []"
  by (cases xs) (auto split: list.splits)

lemma hd_runs: "xs \<noteq> [] \<Longrightarrow> fst (hd (runs f xs)) = f (hd xs)"
  by (cases xs) (auto split: list.splits)

lemma runs_Cons_key: "runs f (x # xs) = (k, g) # gs \<Longrightarrow> k = f x"
  by (auto split: list.splits if_splits)

lemma runs_group: "(k, g) \<in> set (runs f xs) \<Longrightarrow> g \<noteq> [] \<and> (\<forall>x \<in> set g. f x = k)"
proof (induction xs arbitrary: k g)
  case Nil
  then show ?case by simp
next
  case (Cons x xs)
  note IH = Cons.IH and prems = Cons.prems
  show ?case
  proof (cases "runs f xs")
    case Nil
    with prems show ?thesis by auto
  next
    case (Cons p ps)
    obtain k' g' where p: "p = (k', g')" by (cases p)
    have hd: "g' \<noteq> [] \<and> (\<forall>y \<in> set g'. f y = k')"
      using IH[of k' g'] Cons p by simp
    have tl: "\<And>k g. (k, g) \<in> set ps \<Longrightarrow> g \<noteq> [] \<and> (\<forall>y \<in> set g. f y = k)"
      using IH Cons by auto
    from prems Cons p show ?thesis
      using hd tl by (auto split: if_splits)
  qed
qed

lemma map_fst_runs: "map fst (runs f xs) = remdups_adj (map f xs)"
proof (induction xs)
  case Nil
  then show ?case by simp
next
  case (Cons x xs)
  note IH = Cons.IH
  show ?case
  proof (cases xs)
    case Nil
    then show ?thesis by simp
  next
    case (Cons y ys)
    then have "runs f xs \<noteq> []" using runs_Nil_iff[of f xs] by simp
    then obtain k g ps where r: "runs f xs = (k, g) # ps" by (cases "runs f xs") auto
    with Cons have k: "k = f y" using runs_Cons_key by metis
    from IH r have "remdups_adj (map f xs) = k # map fst ps" by simp
    with r k Cons show ?thesis by auto
  qed
qed

lemma distinct_adj_runs: "distinct_adj (map fst (runs f xs))"
  by (simp add: map_fst_runs)

lemma runs_append:
  "xs = [] \<or> ys = [] \<or> f (last xs) \<noteq> f (hd ys) \<Longrightarrow> runs f (xs @ ys) = runs f xs @ runs f ys"
proof (induction xs)
  case Nil
  then show ?case by simp
next
  case (Cons x xs)
  note IH = Cons.IH and prems = Cons.prems
  show ?case
  proof (cases "xs = []")
    case True
    show ?thesis
    proof (cases ys)
      case Nil
      then show ?thesis by simp
    next
      case (Cons y ys')
      then have "runs f ys \<noteq> []" using runs_Nil_iff[of f ys] by simp
      then obtain k g ps where r: "runs f ys = (k, g) # ps" by (cases "runs f ys") auto
      with Cons have k: "k = f y" using runs_Cons_key by metis
      from prems True Cons have "f x \<noteq> f y" by simp
      with True r k show ?thesis by simp
    qed
  next
    case False
    with IH prems have IH': "runs f (xs @ ys) = runs f xs @ runs f ys" by auto
    from False have "runs f xs \<noteq> []" by (simp add: runs_Nil_iff)
    then show ?thesis using IH' by (cases "runs f xs") auto
  qed
qed

lemma runs_single: "xs \<noteq> [] \<Longrightarrow> \<forall>x \<in> set xs. f x = k \<Longrightarrow> runs f xs = [(k, xs)]"
proof (induction xs)
  case Nil
  then show ?case by simp
next
  case (Cons x xs)
  then show ?case by (cases "xs = []") auto
qed

lemma key_of_has_keys: "has_keys keys row \<Longrightarrow> key_of keys row = Inr (keyvals keys row)"
proof (induction keys)
  case Nil
  then show ?case by (simp add: keyvals_def)
next
  case (Cons k ks)
  from Cons.prems have "contains row k" and hk: "has_keys ks row"
    by (auto simp: has_keys_def)
  then obtain v where v: "map_of row k = Some v"
    by (auto simp: contains_def weak_map_of_SomeI dest!: weak_map_of_SomeI)
  with Cons.IH[OF hk] show ?case
    by (simp add: getitem_def keyvals_def)
qed

lemma get_ans_merged:
  "has_keys keys row_a \<Longrightarrow> get_ans sa sb row_a row_b keys = Inr (merged sa sb keys row_a row_b)"
  by (simp add: get_ans_def merged_def key_of_has_keys)

lemma cat_Nil_left: "cat (Inr []) r = r"
  by (cases r) auto

lemma cat_assoc: "cat (cat a b) c = cat a (cat b c)"
  by (cases a; cases b; cases c) auto

lemma sequence_map_Inr: "sequence (map Inr xs) = Inr xs"
  by (induction xs) auto

lemma sequence_Inr: "(\<And>x. x \<in> set xs \<Longrightarrow> f x = Inr (g x)) \<Longrightarrow> sequence (map f xs) = Inr (map g xs)"
  by (induction xs) auto

lemma pairs_a_major_Inr:
  assumes "\<forall>a \<in> set rows_a. has_keys keys a"
  shows "pairs_a_major sa sb keys rows_a rows_b
    = Inr (concat (map (\<lambda>a. map (merged sa sb keys a) rows_b) rows_a))"
proof -
  have "concat (map (\<lambda>row_a. map (\<lambda>row_b. get_ans sa sb row_a row_b keys) rows_b) rows_a)
      = map Inr (concat (map (\<lambda>a. map (merged sa sb keys a) rows_b) rows_a))"
    using assms by (induction rows_a) (auto simp: get_ans_merged)
  then show ?thesis by (simp add: pairs_a_major_def sequence_map_Inr)
qed

lemma pairs_b_major_Inr:
  assumes "\<forall>a \<in> set rows_a. has_keys keys a"
  shows "pairs_b_major sa sb keys rows_a rows_b
    = Inr (concat (map (\<lambda>b. map (\<lambda>a. merged sa sb keys a b) rows_a) rows_b))"
proof -
  have "concat (map (\<lambda>row_b. map (\<lambda>row_a. get_ans sa sb row_a row_b keys) rows_a) rows_b)
      = map Inr (concat (map (\<lambda>b. map (\<lambda>a. merged sa sb keys a b) rows_a) rows_b))"
    using assms by (induction rows_b) (auto simp: get_ans_merged)
  then show ?thesis by (simp add: pairs_b_major_def sequence_map_Inr)
qed

lemma transp_key_le: "transp key_le"
  unfolding transp_def key_le_iff using key_lt_trans by blast

lemma transp_key_less: "transp key_less"
  unfolding transp_def key_less_def using key_lt_trans by blast

lemma sorted_remdups_adj:
  "sorted_wrt key_le ks \<Longrightarrow> sorted_wrt key_less (remdups_adj ks)"
proof (induction ks rule: remdups_adj.induct)
  case 1
  then show ?case by simp
next
  case (2 x)
  then show ?case by simp
next
  case (3 x y xs)
  show ?case
  proof (cases "x = y")
    case True
    with 3 show ?thesis by simp
  next
    case False
    from "3.prems" have xy: "key_le x y" and le: "\<forall>z \<in> set xs. key_le y z" 
      and s: "sorted_wrt key_le (y # xs)" by auto
    from xy False have lt: "key_less x y" by (auto simp: key_le_iff key_less_def)
    have "\<forall>z \<in> set (y # xs). key_less x z"
      using lt le key_lt_trans unfolding key_le_iff key_less_def by auto
    with 3 False s show ?thesis by simp
  qed
qed

lemma sorted_by_runs:
  assumes "sorted_by keys rows"
  shows "grouped (keyvals keys) (runs (keyvals keys) rows)"
proof -
  from assms have "successively key_le (map (keyvals keys) rows)"
    by (simp add: sorted_by_def successively_map)
  then have "sorted_wrt key_le (map (keyvals keys) rows)"
    using successively_conv_sorted_wrt[OF transp_key_le] by simp
  then have "sorted_wrt key_less (map fst (runs (keyvals keys) rows))"
    by (simp add: map_fst_runs sorted_remdups_adj)
  then show ?thesis
    using runs_group[of _ _ "keyvals keys" rows] by (auto simp: grouped_def)
qed

lemma sorted_by_groupby:
  assumes "sorted_by keys rows"
  shows "groupby (key_of keys) rows = Inr (runs (keyvals keys) rows)"
  using assms by (intro groupby_runs) (simp add: sorted_by_def key_of_has_keys)

lemma Join_loop_Nil_left: "Join_loop j keys [] gbs = drain_b j keys gbs"
  by (simp add: cat_Nil_left)

lemma Join_loop_Nil_right: "Join_loop j keys gas [] = drain_a j keys gas"
  by (cases gas) (auto simp: cat_Nil_right)

lemma drain_a_append: "drain_a j keys (xs @ ys) = cat (drain_a j keys xs) (drain_a j keys ys)"
  by (induction xs) (auto simp: cat_Nil_left cat_assoc)

lemma drain_b_append: "drain_b j keys (xs @ ys) = cat (drain_b j keys xs) (drain_b j keys ys)"
  by (induction xs) (auto simp: cat_Nil_left cat_assoc)

lemma Join_loop_drain_b:
  assumes "\<forall>kb \<in> fst ` set gbs1. \<forall>ka \<in> fst ` set gas. key_less kb ka"
  shows "Join_loop j keys gas (gbs1 @ gbs2) = cat (drain_b j keys gbs1) (Join_loop j keys gas gbs2)"
  using assms
proof (induction gbs1)
  case Nil
  then show ?case by (simp add: cat_Nil_left)
next
  case (Cons b gbs1)
  obtain kb gb where b: "b = (kb, gb)" by (cases b)
  show ?case
  proof (cases gas)
    case Nil
    then show ?thesis
      using drain_b_append[of j keys "b # gbs1" gbs2]
      by (simp add: Join_loop_Nil_left del: Join_loop.simps drain_b.simps)
  next
    case (Cons a gas')
    obtain ka ga where a: "a = (ka, ga)" by (cases a)
    from Cons.prems Cons a b have lt: "key_less kb ka" by auto
    then have ne: "ka \<noteq> kb" and f: "key_lt ka kb = Some False"
      using key_lt_neq key_lt_asym by (auto simp: key_less_def)
    from Cons.prems have "\<forall>kb \<in> fst ` set gbs1. \<forall>ka \<in> fst ` set gas. key_less kb ka" by auto
    from Cons.IH[OF this] show ?thesis
      using Cons a b ne f by (simp add: cat_assoc)
  qed
qed

lemma Join_loop_drain_a:
  assumes "\<forall>ka \<in> fst ` set gas1. \<forall>kb \<in> fst ` set gbs. key_less ka kb"
  shows "Join_loop j keys (gas1 @ gas2) gbs = cat (drain_a j keys gas1) (Join_loop j keys gas2 gbs)"
  using assms
proof (induction gas1)
  case Nil
  then show ?case by (simp add: cat_Nil_left)
next
  case (Cons a gas1)
  obtain ka ga where a: "a = (ka, ga)" by (cases a)
  show ?case
  proof (cases gbs)
    case Nil
    then show ?thesis
      using drain_a_append[of j keys "a # gas1" gas2]
      by (simp add: Join_loop_Nil_right del: Join_loop.simps drain_a.simps)
  next
    case (Cons b gbs')
    obtain kb gb where b: "b = (kb, gb)" by (cases b)
    from Cons.prems Cons a b have lt: "key_less ka kb" by auto
    then have ne: "ka \<noteq> kb" and f: "key_lt ka kb = Some True"
      using key_lt_neq by (auto simp: key_less_def)
    from Cons.prems have "\<forall>ka \<in> fst ` set gas1. \<forall>kb \<in> fst ` set gbs. key_less ka kb" by auto
    from Cons.IH[OF this] show ?thesis
      using Cons a b ne f by (simp add: cat_assoc)
  qed
qed

lemma Join_loop_append:
  assumes "\<forall>k1 \<in> fst ` set gas1 \<union> fst ` set gbs1. \<forall>k2 \<in> fst ` set gas2 \<union> fst ` set gbs2. key_less k1 k2"
  shows "Join_loop j keys (gas1 @ gas2) (gbs1 @ gbs2)
    = cat (Join_loop j keys gas1 gbs1) (Join_loop j keys gas2 gbs2)"
  using assms
proof (induction j keys gas1 gbs1 rule: Join_loop.induct)
  case (1 j keys gbs)
  then have "\<forall>kb \<in> fst ` set gbs. \<forall>ka \<in> fst ` set gas2. key_less kb ka" by auto
  from Join_loop_drain_b[OF this] show ?case
    by (simp add: Join_loop_Nil_left del: Join_loop.simps)
next
  case (2 j keys key_a group_a gas)
  then have "\<forall>ka \<in> fst ` set ((key_a, group_a) # gas). \<forall>kb \<in> fst ` set gbs2. key_less ka kb"
    by auto
  from Join_loop_drain_a[OF this, of j keys gas2] show ?case
    by (simp add: Join_loop_Nil_right del: Join_loop.simps drain_a.simps)
next
  case (3 j keys key_a group_a gas key_b group_b gbs)
  show ?case
  proof (cases "key_a = key_b")
    case True
    with 3 show ?thesis by (simp add: cat_assoc)
  next
    case False
    show ?thesis
    proof (cases "key_lt key_a key_b")
      case None
      with False show ?thesis by simp
    next
      case (Some t)
      show ?thesis
      proof (cases t)
        case True
        have "Join_loop j keys (gas @ gas2) (((key_b, group_b) # gbs) @ gbs2) =
          cat (Join_loop j keys gas ((key_b, group_b) # gbs)) (Join_loop j keys gas2 gbs2)"
          using "3.IH"(2) False Some True "3.prems" by auto
        with False Some True show ?thesis by (simp add: cat_assoc)
      next
        case F: False
        have "Join_loop j keys (((key_a, group_a) # gas) @ gas2) (gbs @ gbs2) =
          cat (Join_loop j keys ((key_a, group_a) # gas) gbs) (Join_loop j keys gas2 gbs2)"
          using "3.IH"(3) False Some F "3.prems" by auto
        with False Some F show ?thesis by (simp add: cat_assoc)
      qed
    qed
  qed
qed

lemma key_less_asym: "key_less a b \<Longrightarrow> \<not> key_less b a"
  using key_lt_asym by (auto simp: key_less_def)

lemma key_less_irrefl: "\<not> key_less a a"
  by (simp add: key_less_def key_lt_refl)

lemma key_less_trans: "key_less a b \<Longrightarrow> key_less b c \<Longrightarrow> key_less a c"
  using key_lt_trans by (auto simp: key_less_def)

lemma key_le_less_trans: "key_le a b \<Longrightarrow> key_less b c \<Longrightarrow> key_less a c"
  using key_lt_trans by (auto simp: key_less_def key_le_iff)

lemma key_less_le_trans: "key_less a b \<Longrightarrow> key_le b c \<Longrightarrow> key_less a c"
  using key_lt_trans by (auto simp: key_less_def key_le_iff)

lemma key_le_not_less: "key_le a b \<Longrightarrow> \<not> key_less b a"
  using key_less_asym key_less_irrefl by (auto simp: key_le_iff key_less_def)

lemma split_at_key:
  assumes "sorted_wrt key_le (map kv xs)"
    and "\<forall>r \<in> set xs. kv r = k \<or> key_less (kv r) k \<or> key_less k (kv r)"
  shows "xs = filter (\<lambda>r. key_less (kv r) k) xs @ filter (\<lambda>r. kv r = k) xs
            @ filter (\<lambda>r. key_less k (kv r)) xs"
  using assms
proof (induction xs)
  case Nil
  then show ?case by simp
next
  case (Cons x xs)
  then have IH: "xs = filter (\<lambda>r. key_less (kv r) k) xs @ filter (\<lambda>r. kv r = k) xs
            @ filter (\<lambda>r. key_less k (kv r)) xs" by simp
  from Cons.prems have le: "\<forall>y \<in> set xs. key_le (kv x) (kv y)" by simp
  consider "key_less (kv x) k" | "kv x = k" | "key_less k (kv x)"
    using Cons.prems(2) by auto
  then show ?case
  proof cases
    case 1
    then have "kv x \<noteq> k" "\<not> key_less k (kv x)"
      using key_less_irrefl key_less_asym by auto
    with 1 IH show ?thesis by simp
  next
    case 2
    have "\<forall>y \<in> set xs. \<not> key_less (kv y) k"
      using le 2 key_le_not_less by auto
    then have "filter (\<lambda>r. key_less (kv r) k) xs = []" by simp
    with 2 IH show ?thesis by (simp add: key_less_irrefl)
  next
    case 3
    have gt: "\<forall>y \<in> set xs. key_less k (kv y)"
      using le 3 key_less_le_trans by blast
    then have "filter (\<lambda>r. key_less (kv r) k) xs = []" "filter (\<lambda>r. kv r = k) xs = []"
      using key_less_asym key_less_irrefl by (auto simp: filter_empty_conv)
    with 3 IH show ?thesis
      using key_less_asym key_less_irrefl by auto
  qed
qed

lemma sorted_comparable:
  "sorted_wrt key_le (map kv xs) \<Longrightarrow> r \<in> set xs \<Longrightarrow> a \<in> set xs
    \<Longrightarrow> kv r = kv a \<or> key_less (kv r) (kv a) \<or> key_less (kv a) (kv r)"
  by (induction xs) (auto simp: key_le_iff key_less_def)

lemma sorted_by_sorted_wrt:
  "sorted_by keys rows \<Longrightarrow> sorted_wrt key_le (map (keyvals keys) rows)"
  using successively_conv_sorted_wrt[OF transp_key_le, of "map (keyvals keys) rows"]
  by (simp add: sorted_by_def successively_map)

lemma comparable_keys:
  assumes "comparable keys rows_a rows_b" "a \<in> set rows_a" "b \<in> set rows_b"
  shows "keyvals keys a = keyvals keys b \<or> key_lt (keyvals keys a) (keyvals keys b) = Some True
        \<or> (key_lt (keyvals keys a) (keyvals keys b) = Some False
            \<and> key_lt (keyvals keys b) (keyvals keys a) = Some True)"
proof -
  from assms have "keys_eq (keyvals keys a) (keyvals keys b)
        \<or> key_lt (keyvals keys a) (keyvals keys b) = Some True
        \<or> key_lt (keyvals keys b) (keyvals keys a) = Some True"
    by (simp add: comparable_def)
  then show ?thesis using keys_eq_eq key_lt_asym by blast
qed

lemma comparable_trichotomy:
  assumes "comparable keys rows_a rows_b" "a \<in> set rows_a" "b \<in> set rows_b"
  shows "keyvals keys a = keyvals keys b \<or> key_less (keyvals keys a) (keyvals keys b)
     \<or> key_less (keyvals keys b) (keyvals keys a)"
  using comparable_keys[OF assms] by (auto simp: key_less_def)

lemma runs_append_disjoint:
  assumes "\<forall>x \<in> set xs. \<forall>y \<in> set ys. f x \<noteq> f y"
  shows "runs f (xs @ ys) = runs f xs @ runs f ys"
proof (rule runs_append)
  show "xs = [] \<or> ys = [] \<or> f (last xs) \<noteq> f (hd ys)"
    using assms last_in_set[of xs] hd_in_set[of ys] by blast
qed

lemma keys_runs: "fst ` set (runs f xs) = f ` set xs"
proof -
  have "fst ` set (runs f xs) = set (map fst (runs f xs))" by simp
  also have "\<dots> = f ` set xs" by (simp only: map_fst_runs remdups_adj_set set_map)
  finally show ?thesis .
qed

lemma Join_runs:
  assumes "\<forall>r \<in> set rows_a. has_keys keys r" "\<forall>r \<in> set rows_b. has_keys keys r"
  shows "Join j keys rows_a rows_b
    = Join_loop j keys (runs (keyvals keys) rows_a) (runs (keyvals keys) rows_b)"
proof -
  have "groupby (key_of keys) rows_a = Inr (runs (keyvals keys) rows_a)"
    using assms(1) by (intro groupby_runs) (simp add: key_of_has_keys)
  moreover have "groupby (key_of keys) rows_b = Inr (runs (keyvals keys) rows_b)"
    using assms(2) by (intro groupby_runs) (simp add: key_of_has_keys)
  ultimately show ?thesis by (simp add: Join_def)
qed

lemma joiner_call_Inr:
  assumes "\<forall>a \<in> set rows_a. has_keys keys a"
  shows "\<exists>out. joiner_call j keys rows_a rows_b = Inr out"
  using assms by (cases j) (auto simp: pairs_a_major_Inr pairs_b_major_Inr)

lemma unmatched_a_Inr: "unmatched_a j keys g = Inr (if is_left_or_outer j then g else [])"
  by (cases j) (auto simp: unmatched_a_def pairs_a_major_def)

lemma unmatched_b_Inr: "unmatched_b j keys g = Inr (if is_right_or_outer j then g else [])"
  by (cases j) (auto simp: unmatched_b_def pairs_b_major_def)

lemma drain_a_Inr: "\<exists>out. drain_a j keys gs = Inr out"
  by (induction gs) (auto simp: unmatched_a_Inr)

lemma drain_b_Inr: "\<exists>out. drain_b j keys gs = Inr out"
  by (induction gs) (auto simp: unmatched_b_Inr)

lemma cat_Inr: "a = Inr x \<Longrightarrow> b = Inr y \<Longrightarrow> cat a b = Inr (x @ y)"
  by simp

lemma Join_loop_Inr:
  assumes "\<forall>(k, g) \<in> set gas. \<forall>a \<in> set g. has_keys keys a"
    and "\<forall>ka \<in> fst ` set gas. \<forall>kb \<in> fst ` set gbs. ka = kb \<or> key_lt ka kb \<noteq> None"
  shows "\<exists>out. Join_loop j keys gas gbs = Inr out"
  using assms
proof (induction j keys gas gbs rule: Join_loop.induct)
  case (1 j keys gbs)
  then show ?case using drain_b_Inr[of j keys gbs] by (auto simp: cat_Nil_left)
next
  case (2 j keys key_a group_a gas)
  obtain out where "drain_a j keys ((key_a, group_a) # gas) = Inr out"
    using drain_a_Inr by blast
  then show ?case by (simp del: drain_a.simps)
next
  case (3 j keys key_a group_a gas key_b group_b gbs)
  show ?case
  proof (cases "key_a = key_b")
    case True
    obtain o1 where o1: "joiner_call j keys group_a group_b = Inr o1"
      using joiner_call_Inr[of group_a keys j group_b] "3.prems"(1) by auto
    obtain o2 where "Join_loop j keys gas gbs = Inr o2"
      using "3.IH"(1)[OF True] "3.prems" by auto
    with o1 True show ?thesis by simp
  next
    case False
    with "3.prems"(2) obtain t where t: "key_lt key_a key_b = Some t" by auto
    show ?thesis
    proof (cases t)
      case True
      have "\<exists>o2. Join_loop j keys gas ((key_b, group_b) # gbs) = Inr o2"
        by (rule "3.IH"(2)[OF False t]) (use True "3.prems" in auto)
      then obtain o2 where "Join_loop j keys gas ((key_b, group_b) # gbs) = Inr o2" ..
      with False t True show ?thesis by (simp add: unmatched_a_Inr)
    next
      case F: False
      have "\<exists>o2. Join_loop j keys ((key_a, group_a) # gas) gbs = Inr o2"
        by (rule "3.IH"(3)[OF False t]) (use F "3.prems" in auto)
      then obtain o2 where "Join_loop j keys ((key_a, group_a) # gas) gbs = Inr o2" ..
      with False t F show ?thesis by (simp add: unmatched_b_Inr)
    qed
  qed
qed

lemma Join_Inr:
  assumes "\<forall>r \<in> set rows_a. has_keys keys r" "\<forall>r \<in> set rows_b. has_keys keys r"
    and "comparable keys rows_a rows_b"
  shows "\<exists>out. Join j keys rows_a rows_b = Inr out"
proof -
  have 1: "\<forall>(k, g) \<in> set (runs (keyvals keys) rows_a). \<forall>a \<in> set g. has_keys keys a"
  proof clarify
    fix k g a assume "(k, g) \<in> set (runs (keyvals keys) rows_a)" "a \<in> set g"
    then have "a \<in> set (concat (map snd (runs (keyvals keys) rows_a)))" by force
    then show "has_keys keys a" using assms(1) by (simp only: concat_runs)
  qed
  have 2: "\<forall>ka \<in> fst ` set (runs (keyvals keys) rows_a).
      \<forall>kb \<in> fst ` set (runs (keyvals keys) rows_b). ka = kb \<or> key_lt ka kb \<noteq> None"
    unfolding keys_runs
  proof (intro ballI)
    fix ka kb assume "ka \<in> keyvals keys ` set rows_a" "kb \<in> keyvals keys ` set rows_b"
    then obtain a b where "a \<in> set rows_a" "b \<in> set rows_b" "ka = keyvals keys a" "kb = keyvals keys b"
      by auto
    then show "ka = kb \<or> key_lt ka kb \<noteq> None"
      using comparable_keys[OF assms(3), of a b] by auto
  qed
  from Join_loop_Inr[OF 1 2] show ?thesis
    by (simp only: Join_runs[OF assms(1,2)])
qed

lemma keys_runs_mem: "(k, g) \<in> set (runs f xs) \<Longrightarrow> k \<in> f ` set xs"
  using keys_runs[of f xs] by force

lemma runs_split_at_key:
  assumes "sorted_wrt key_le (map kv xs)"
    and "\<forall>r \<in> set xs. kv r = k \<or> key_less (kv r) k \<or> key_less k (kv r)"
  shows "runs kv xs = runs kv (filter (\<lambda>r. key_less (kv r) k) xs)
     @ runs kv (filter (\<lambda>r. kv r = k) xs) @ runs kv (filter (\<lambda>r. key_less k (kv r)) xs)"
proof -
  let ?L = "filter (\<lambda>r. key_less (kv r) k) xs"
  let ?E = "filter (\<lambda>r. kv r = k) xs"
  let ?G = "filter (\<lambda>r. key_less k (kv r)) xs"
  have "runs kv xs = runs kv (?L @ ?E @ ?G)"
    using split_at_key[OF assms] by simp
  also have "\<dots> = runs kv ?L @ runs kv (?E @ ?G)"
    by (rule runs_append_disjoint) (use key_less_irrefl key_less_asym in auto)
  also have "runs kv (?E @ ?G) = runs kv ?E @ runs kv ?G"
    by (rule runs_append_disjoint) (use key_less_irrefl in auto)
  finally show ?thesis .
qed

lemma Join_split_at_key:
  assumes A: "sorted_by keys rows_a" and B: "sorted_by keys rows_b"
    and ta: "\<forall>r \<in> set rows_a. keyvals keys r = k \<or> key_less (keyvals keys r) k \<or> key_less k (keyvals keys r)"
    and tb: "\<forall>r \<in> set rows_b. keyvals keys r = k \<or> key_less (keyvals keys r) k \<or> key_less k (keyvals keys r)"
  shows "Join j keys rows_a rows_b =
    cat (Join j keys (rows_below keys k rows_a) (rows_below keys k rows_b))
      (cat (Join j keys (rows_at keys k rows_a) (rows_at keys k rows_b))
           (Join j keys (rows_above keys k rows_a) (rows_above keys k rows_b)))"
proof -
  let ?kv = "keyvals keys"
  let ?R = "runs ?kv"
  from A have ha: "\<forall>r \<in> set rows_a. has_keys keys r" by (simp add: sorted_by_def)
  from B have hb: "\<forall>r \<in> set rows_b. has_keys keys r" by (simp add: sorted_by_def)
  have ra: "?R rows_a = ?R (rows_below keys k rows_a) @ ?R (rows_at keys k rows_a) @ ?R (rows_above keys k rows_a)"
    unfolding rows_below_def rows_at_def rows_above_def
    by (rule runs_split_at_key[OF sorted_by_sorted_wrt[OF A] ta])
  have rb: "?R rows_b = ?R (rows_below keys k rows_b) @ ?R (rows_at keys k rows_b) @ ?R (rows_above keys k rows_b)"
    unfolding rows_below_def rows_at_def rows_above_def
    by (rule runs_split_at_key[OF sorted_by_sorted_wrt[OF B] tb])
  have 1: "Join_loop j keys (?R rows_a) (?R rows_b) =
      cat (Join_loop j keys (?R (rows_below keys k rows_a)) (?R (rows_below keys k rows_b)))
        (Join_loop j keys (?R (rows_at keys k rows_a) @ ?R (rows_above keys k rows_a))
           (?R (rows_at keys k rows_b) @ ?R (rows_above keys k rows_b)))"
    unfolding ra rb
    apply (rule Join_loop_append)
    unfolding keys_runs rows_below_def rows_at_def rows_above_def
    using key_less_trans by (auto dest!: keys_runs_mem)
  have 2: "Join_loop j keys (?R (rows_at keys k rows_a) @ ?R (rows_above keys k rows_a))
           (?R (rows_at keys k rows_b) @ ?R (rows_above keys k rows_b)) =
      cat (Join_loop j keys (?R (rows_at keys k rows_a)) (?R (rows_at keys k rows_b)))
        (Join_loop j keys (?R (rows_above keys k rows_a)) (?R (rows_above keys k rows_b)))"
    apply (rule Join_loop_append)
    unfolding keys_runs rows_below_def rows_at_def rows_above_def
    by (auto dest!: keys_runs_mem)
  have J: "\<And>P Q. Join j keys (filter P rows_a) (filter Q rows_b)
      = Join_loop j keys (?R (filter P rows_a)) (?R (filter Q rows_b))"
    by (rule Join_runs) (use ha hb in auto)
  show ?thesis
    unfolding Join_runs[OF ha hb] 1 2
    by (simp add: J rows_below_def rows_at_def rows_above_def)
qed

lemma drain_a_concat:
  "drain_a j keys gs = Inr (if is_left_or_outer j then concat (map snd gs) else [])"
  by (induction gs) (auto simp: unmatched_a_Inr)

lemma drain_b_concat:
  "drain_b j keys gs = Inr (if is_right_or_outer j then concat (map snd gs) else [])"
  by (induction gs) (auto simp: unmatched_b_Inr)

lemma Join_empty_right:
  assumes "\<forall>r \<in> set rows_a. has_keys keys r"
  shows "Join j keys rows_a [] = Inr (if is_left_or_outer j then rows_a else [])"
proof -
  have "Join j keys rows_a [] = Join_loop j keys (runs (keyvals keys) rows_a) (runs (keyvals keys) [])"
    by (rule Join_runs) (use assms in auto)
  then show ?thesis
    by (simp add: Join_loop_Nil_right drain_a_concat concat_runs del: Join_loop.simps)
qed

lemma Join_empty_left:
  assumes "\<forall>r \<in> set rows_b. has_keys keys r"
  shows "Join j keys [] rows_b = Inr (if is_right_or_outer j then rows_b else [])"
proof -
  have "Join j keys [] rows_b = Join_loop j keys (runs (keyvals keys) []) (runs (keyvals keys) rows_b)"
    by (rule Join_runs) (use assms in auto)
  then show ?thesis
    by (simp add: Join_loop_Nil_left drain_b_concat concat_runs del: Join_loop.simps)
qed

lemma sorted_by_filter: "sorted_by keys rows \<Longrightarrow> sorted_by keys (filter P rows)"
proof -
  assume s: "sorted_by keys rows"
  have "sorted_wrt key_le (map (keyvals keys) (filter P rows))"
    using sorted_by_sorted_wrt[OF s] by (simp add: sorted_wrt_map sorted_wrt_filter)
  then have "successively key_le (map (keyvals keys) (filter P rows))"
    by (rule successively_if_sorted_wrt)
  with s show ?thesis by (simp add: sorted_by_def successively_map)
qed

lemma comparable_filter:
  "comparable keys rows_a rows_b \<Longrightarrow> comparable keys (filter P rows_a) (filter Q rows_b)"
  by (auto simp: comparable_def)

text \<open>
  A key value \<open>k\<close> whose group on one side is not empty and that no row of the other
  side has, in streams sorted by the key tuple with comparable key values: the output
  of \<open>Join\<close> is the output for the rows below \<open>k\<close>, then what the group contributes,
  then the output for the rows above \<open>k\<close>.
\<close>

lemma Join_unmatched_group:
  assumes A: "sorted_by keys rows_a" and B: "sorted_by keys rows_b"
    and C: "comparable keys rows_a rows_b"
  shows "(rows_at keys k rows_a \<noteq> [] \<and> rows_at keys k rows_b = [] \<longrightarrow>
           (\<exists>below above.
              Join j keys (rows_below keys k rows_a) (rows_below keys k rows_b) = Inr below
            \<and> Join j keys (rows_above keys k rows_a) (rows_above keys k rows_b) = Inr above
            \<and> Join j keys rows_a rows_b
                = Inr (below @ (if is_left_or_outer j then rows_at keys k rows_a else []) @ above)))
       \<and> (rows_at keys k rows_b \<noteq> [] \<and> rows_at keys k rows_a = [] \<longrightarrow>
           (\<exists>below above.
              Join j keys (rows_below keys k rows_a) (rows_below keys k rows_b) = Inr below
            \<and> Join j keys (rows_above keys k rows_a) (rows_above keys k rows_b) = Inr above
            \<and> Join j keys rows_a rows_b
                = Inr (below @ (if is_right_or_outer j then rows_at keys k rows_b else []) @ above)))"
proof -
  let ?kv = "keyvals keys"
  from A have ha: "\<forall>r \<in> set rows_a. has_keys keys r" by (simp add: sorted_by_def)
  from B have hb: "\<forall>r \<in> set rows_b. has_keys keys r" by (simp add: sorted_by_def)
  obtain below where below:
    "Join j keys (rows_below keys k rows_a) (rows_below keys k rows_b) = Inr below"
  proof -
    have "\<exists>out. Join j keys (rows_below keys k rows_a) (rows_below keys k rows_b) = Inr out"
      unfolding rows_below_def
      by (rule Join_Inr) (use ha hb comparable_filter[OF C] in simp_all)
    then show ?thesis using that by blast
  qed
  obtain above where above:
    "Join j keys (rows_above keys k rows_a) (rows_above keys k rows_b) = Inr above"
  proof -
    have "\<exists>out. Join j keys (rows_above keys k rows_a) (rows_above keys k rows_b) = Inr out"
      unfolding rows_above_def
      by (rule Join_Inr) (use ha hb comparable_filter[OF C] in simp_all)
    then show ?thesis using that by blast
  qed
  have split: "Join j keys rows_a rows_b =
      cat (Inr below) (cat (Join j keys (rows_at keys k rows_a) (rows_at keys k rows_b)) (Inr above))"
    if "k \<in> ?kv ` set rows_a \<or> k \<in> ?kv ` set rows_b"
  proof -
    have tri: "(\<forall>r \<in> set rows_a. ?kv r = k \<or> key_less (?kv r) k \<or> key_less k (?kv r))
             \<and> (\<forall>r \<in> set rows_b. ?kv r = k \<or> key_less (?kv r) k \<or> key_less k (?kv r))"
      using that
    proof
      assume "k \<in> ?kv ` set rows_a"
      then obtain a where a: "a \<in> set rows_a" "?kv a = k" by auto
      have "\<forall>r \<in> set rows_a. ?kv r = k \<or> key_less (?kv r) k \<or> key_less k (?kv r)"
        using sorted_comparable[OF sorted_by_sorted_wrt[OF A] _ a(1)] a(2) by blast
      moreover have "\<forall>r \<in> set rows_b. ?kv r = k \<or> key_less (?kv r) k \<or> key_less k (?kv r)"
        using comparable_trichotomy[OF C a(1)] a(2) by force
      ultimately show ?thesis by blast
    next
      assume "k \<in> ?kv ` set rows_b"
      then obtain b where b: "b \<in> set rows_b" "?kv b = k" by auto
      have "\<forall>r \<in> set rows_b. ?kv r = k \<or> key_less (?kv r) k \<or> key_less k (?kv r)"
        using sorted_comparable[OF sorted_by_sorted_wrt[OF B] _ b(1)] b(2) by blast
      moreover have "\<forall>r \<in> set rows_a. ?kv r = k \<or> key_less (?kv r) k \<or> key_less k (?kv r)"
        using comparable_trichotomy[OF C _ b(1)] b(2) by force
      ultimately show ?thesis by blast
    qed
    then have ta: "\<forall>r \<in> set rows_a. ?kv r = k \<or> key_less (?kv r) k \<or> key_less k (?kv r)"
      and tb: "\<forall>r \<in> set rows_b. ?kv r = k \<or> key_less (?kv r) k \<or> key_less k (?kv r)"
      by blast+
    show ?thesis
      using Join_split_at_key[OF A B ta tb, of j] by (simp add: below above)
  qed
  have left: "rows_at keys k rows_a \<noteq> [] \<Longrightarrow> k \<in> ?kv ` set rows_a"
    by (auto simp: rows_at_def filter_empty_conv)
  have right: "rows_at keys k rows_b \<noteq> [] \<Longrightarrow> k \<in> ?kv ` set rows_b"
    by (auto simp: rows_at_def filter_empty_conv)
  have ga: "\<forall>r \<in> set (rows_at keys k rows_a). has_keys keys r"
    using ha by (simp add: rows_at_def)
  have gb: "\<forall>r \<in> set (rows_at keys k rows_b). has_keys keys r"
    using hb by (simp add: rows_at_def)
  show ?thesis
  proof (intro conjI impI)
    assume h: "rows_at keys k rows_a \<noteq> [] \<and> rows_at keys k rows_b = []"
    then have "Join j keys rows_a rows_b
        = Inr (below @ (if is_left_or_outer j then rows_at keys k rows_a else []) @ above)"
      using split left Join_empty_right[OF ga, of j] by simp
    with below above show "\<exists>below above.
              Join j keys (rows_below keys k rows_a) (rows_below keys k rows_b) = Inr below
            \<and> Join j keys (rows_above keys k rows_a) (rows_above keys k rows_b) = Inr above
            \<and> Join j keys rows_a rows_b
                = Inr (below @ (if is_left_or_outer j then rows_at keys k rows_a else []) @ above)"
      by blast
  next
    assume h: "rows_at keys k rows_b \<noteq> [] \<and> rows_at keys k rows_a = []"
    then have "Join j keys rows_a rows_b
        = Inr (below @ (if is_right_or_outer j then rows_at keys k rows_b else []) @ above)"
      using split right Join_empty_left[OF gb, of j] by simp
    with below above show "\<exists>below above.
              Join j keys (rows_below keys k rows_a) (rows_below keys k rows_b) = Inr below
            \<and> Join j keys (rows_above keys k rows_a) (rows_above keys k rows_b) = Inr above
            \<and> Join j keys rows_a rows_b
                = Inr (below @ (if is_right_or_outer j then rows_at keys k rows_b else []) @ above)"
      by blast
  qed
qed

text \<open>
  Claim C5, as the code has it. Both streams sorted by the key tuple, with comparable
  key values, and a key value \<open>k\<close> whose group on one side (\<open>rows_at keys k\<close>) is not
  empty and that no row of the other side has. When the group is on the left,
  \<open>LeftJoiner\<close> and \<open>OuterJoiner\<close> emit the output for the rows below \<open>k\<close>, then the rows
  of the group, each as it was received, then the output for the rows above \<open>k\<close>;
  \<open>InnerJoiner\<close> and \<open>RightJoiner\<close> emit the output below \<open>k\<close> and the output above
  \<open>k\<close> and nothing in between. When the group is on the right, \<open>RightJoiner\<close> and
  \<open>OuterJoiner\<close> emit its rows as received, \<open>InnerJoiner\<close> and \<open>LeftJoiner\<close> nothing.
\<close>

theorem unmatched_groups_as_received:
  assumes A: "sorted_by keys rows_a" and B: "sorted_by keys rows_b"
    and C: "comparable keys rows_a rows_b"
  shows "(rows_at keys k rows_a \<noteq> [] \<and> rows_at keys k rows_b = [] \<longrightarrow>
           (\<forall>j \<in> {LeftJoiner sa sb, OuterJoiner sa sb}. \<exists>below above.
              Join j keys (rows_below keys k rows_a) (rows_below keys k rows_b) = Inr below
            \<and> Join j keys (rows_above keys k rows_a) (rows_above keys k rows_b) = Inr above
            \<and> Join j keys rows_a rows_b = Inr (below @ rows_at keys k rows_a @ above))
         \<and> (\<forall>j \<in> {InnerJoiner sa sb, RightJoiner sa sb}. \<exists>below above.
              Join j keys (rows_below keys k rows_a) (rows_below keys k rows_b) = Inr below
            \<and> Join j keys (rows_above keys k rows_a) (rows_above keys k rows_b) = Inr above
            \<and> Join j keys rows_a rows_b = Inr (below @ above)))
       \<and> (rows_at keys k rows_b \<noteq> [] \<and> rows_at keys k rows_a = [] \<longrightarrow>
           (\<forall>j \<in> {RightJoiner sa sb, OuterJoiner sa sb}. \<exists>below above.
              Join j keys (rows_below keys k rows_a) (rows_below keys k rows_b) = Inr below
            \<and> Join j keys (rows_above keys k rows_a) (rows_above keys k rows_b) = Inr above
            \<and> Join j keys rows_a rows_b = Inr (below @ rows_at keys k rows_b @ above))
         \<and> (\<forall>j \<in> {InnerJoiner sa sb, LeftJoiner sa sb}. \<exists>below above.
              Join j keys (rows_below keys k rows_a) (rows_below keys k rows_b) = Inr below
            \<and> Join j keys (rows_above keys k rows_a) (rows_above keys k rows_b) = Inr above
            \<and> Join j keys rows_a rows_b = Inr (below @ above)))"
proof -
  note g = Join_unmatched_group[OF A B C, of k]
  have L: "\<exists>below above.
              Join j keys (rows_below keys k rows_a) (rows_below keys k rows_b) = Inr below
            \<and> Join j keys (rows_above keys k rows_a) (rows_above keys k rows_b) = Inr above
            \<and> Join j keys rows_a rows_b
                = Inr (below @ (if is_left_or_outer j then rows_at keys k rows_a else []) @ above)"
    if "rows_at keys k rows_a \<noteq> [] \<and> rows_at keys k rows_b = []" for j
    using g[of j] that by blast
  have R: "\<exists>below above.
              Join j keys (rows_below keys k rows_a) (rows_below keys k rows_b) = Inr below
            \<and> Join j keys (rows_above keys k rows_a) (rows_above keys k rows_b) = Inr above
            \<and> Join j keys rows_a rows_b
                = Inr (below @ (if is_right_or_outer j then rows_at keys k rows_b else []) @ above)"
    if "rows_at keys k rows_b \<noteq> [] \<and> rows_at keys k rows_a = []" for j
    using g[of j] that by blast
  show ?thesis
  proof (intro conjI impI ballI)
    fix j assume h: "rows_at keys k rows_a \<noteq> [] \<and> rows_at keys k rows_b = []"
      and j: "j \<in> {LeftJoiner sa sb, OuterJoiner sa sb}"
    from j L[OF h, of j] show "\<exists>below above.
              Join j keys (rows_below keys k rows_a) (rows_below keys k rows_b) = Inr below
            \<and> Join j keys (rows_above keys k rows_a) (rows_above keys k rows_b) = Inr above
            \<and> Join j keys rows_a rows_b = Inr (below @ rows_at keys k rows_a @ above)"
      by auto
  next
    fix j assume h: "rows_at keys k rows_a \<noteq> [] \<and> rows_at keys k rows_b = []"
      and j: "j \<in> {InnerJoiner sa sb, RightJoiner sa sb}"
    from j L[OF h, of j] show "\<exists>below above.
              Join j keys (rows_below keys k rows_a) (rows_below keys k rows_b) = Inr below
            \<and> Join j keys (rows_above keys k rows_a) (rows_above keys k rows_b) = Inr above
            \<and> Join j keys rows_a rows_b = Inr (below @ above)"
      by auto
  next
    fix j assume h: "rows_at keys k rows_b \<noteq> [] \<and> rows_at keys k rows_a = []"
      and j: "j \<in> {RightJoiner sa sb, OuterJoiner sa sb}"
    from j R[OF h, of j] show "\<exists>below above.
              Join j keys (rows_below keys k rows_a) (rows_below keys k rows_b) = Inr below
            \<and> Join j keys (rows_above keys k rows_a) (rows_above keys k rows_b) = Inr above
            \<and> Join j keys rows_a rows_b = Inr (below @ rows_at keys k rows_b @ above)"
      by auto
  next
    fix j assume h: "rows_at keys k rows_b \<noteq> [] \<and> rows_at keys k rows_a = []"
      and j: "j \<in> {InnerJoiner sa sb, LeftJoiner sa sb}"
    from j R[OF h, of j] show "\<exists>below above.
              Join j keys (rows_below keys k rows_a) (rows_below keys k rows_b) = Inr below
            \<and> Join j keys (rows_above keys k rows_a) (rows_above keys k rows_b) = Inr above
            \<and> Join j keys rows_a rows_b = Inr (below @ above)"
      by auto
  qed
qed

theorem unmatched_groups_as_received_witness:
  "sorted_by [''k''] [[(''k'', VInt 1), (''v'', VStr ''a'')], [(''k'', VInt 3), (''v'', VStr ''c'')]]
   \<and> sorted_by [''k''] [[(''k'', VInt 2), (''v'', VStr ''b'')], [(''k'', VInt 3), (''w'', VStr ''d'')]]
   \<and> comparable [''k''] [[(''k'', VInt 1), (''v'', VStr ''a'')], [(''k'', VInt 3), (''v'', VStr ''c'')]]
        [[(''k'', VInt 2), (''v'', VStr ''b'')], [(''k'', VInt 3), (''w'', VStr ''d'')]]
   \<and> rows_at [''k''] [VInt 1] [[(''k'', VInt 1), (''v'', VStr ''a'')], [(''k'', VInt 3), (''v'', VStr ''c'')]]
        = [[(''k'', VInt 1), (''v'', VStr ''a'')]]
   \<and> rows_at [''k''] [VInt 1] [[(''k'', VInt 2), (''v'', VStr ''b'')], [(''k'', VInt 3), (''w'', VStr ''d'')]]
        = []
   \<and> rows_at [''k''] [VInt 2] [[(''k'', VInt 2), (''v'', VStr ''b'')], [(''k'', VInt 3), (''w'', VStr ''d'')]]
        = [[(''k'', VInt 2), (''v'', VStr ''b'')]]
   \<and> rows_at [''k''] [VInt 2] [[(''k'', VInt 1), (''v'', VStr ''a'')], [(''k'', VInt 3), (''v'', VStr ''c'')]]
        = []
   \<and> Join (LeftJoiner ''_1'' ''_2'') [''k'']
        [[(''k'', VInt 1), (''v'', VStr ''a'')], [(''k'', VInt 3), (''v'', VStr ''c'')]]
        [[(''k'', VInt 2), (''v'', VStr ''b'')], [(''k'', VInt 3), (''w'', VStr ''d'')]]
      = Inr ([] @ [[(''k'', VInt 1), (''v'', VStr ''a'')]]
               @ [[(''k'', VInt 3), (''v'', VStr ''c''), (''w'', VStr ''d'')]])
   \<and> Join (InnerJoiner ''_1'' ''_2'') [''k'']
        [[(''k'', VInt 1), (''v'', VStr ''a'')], [(''k'', VInt 3), (''v'', VStr ''c'')]]
        [[(''k'', VInt 2), (''v'', VStr ''b'')], [(''k'', VInt 3), (''w'', VStr ''d'')]]
      = Inr ([] @ [[(''k'', VInt 3), (''v'', VStr ''c''), (''w'', VStr ''d'')]])
   \<and> Join (RightJoiner ''_1'' ''_2'') [''k'']
        [[(''k'', VInt 1), (''v'', VStr ''a'')], [(''k'', VInt 3), (''v'', VStr ''c'')]]
        [[(''k'', VInt 2), (''v'', VStr ''b'')], [(''k'', VInt 3), (''w'', VStr ''d'')]]
      = Inr ([] @ [[(''k'', VInt 2), (''v'', VStr ''b'')]]
               @ [[(''k'', VInt 3), (''v'', VStr ''c''), (''w'', VStr ''d'')]])
   \<and> Join (OuterJoiner ''_1'' ''_2'') [''k'']
        [[(''k'', VInt 1), (''v'', VStr ''a'')], [(''k'', VInt 3), (''v'', VStr ''c'')]]
        [[(''k'', VInt 2), (''v'', VStr ''b'')], [(''k'', VInt 3), (''w'', VStr ''d'')]]
      = Inr ([[(''k'', VInt 1), (''v'', VStr ''a'')]] @ [[(''k'', VInt 2), (''v'', VStr ''b'')]]
               @ [[(''k'', VInt 3), (''v'', VStr ''c''), (''w'', VStr ''d'')]])"
proof -
  let ?a1 = "[(''k'', VInt 1), (''v'', VStr ''a'')]"
  let ?a3 = "[(''k'', VInt 3), (''v'', VStr ''c'')]"
  let ?b2 = "[(''k'', VInt 2), (''v'', VStr ''b'')]"
  let ?b3 = "[(''k'', VInt 3), (''w'', VStr ''d'')]"
  let ?m = "[(''k'', VInt 3), (''v'', VStr ''c''), (''w'', VStr ''d'')]"
  let ?A = "[?a1, ?a3]"
  let ?B = "[?b2, ?b3]"
  note ev = Join_def getitem_def pairs_a_major_def pairs_b_major_def get_ans_def dict_update_def
    dict_of_def renamed_def setitem_def contains_def unmatched_a_def unmatched_b_def
  have a: "sorted_by [''k''] ?A"
    by (simp add: sorted_by_def has_keys_def contains_def keyvals_def key_le_iff)
  have b: "sorted_by [''k''] ?B"
    by (simp add: sorted_by_def has_keys_def contains_def keyvals_def key_le_iff)
  have c: "comparable [''k''] ?A ?B"
    by (auto simp: comparable_def keyvals_def keys_eq_def)
  have r1: "rows_at [''k''] [VInt 1] ?A = [?a1]" "rows_at [''k''] [VInt 1] ?B = []"
    "rows_below [''k''] [VInt 1] ?A = []" "rows_below [''k''] [VInt 1] ?B = []"
    "rows_above [''k''] [VInt 1] ?A = [?a3]" "rows_above [''k''] [VInt 1] ?B = ?B"
    by (simp_all add: rows_at_def rows_below_def rows_above_def keyvals_def key_less_def)
  have r2: "rows_at [''k''] [VInt 2] ?B = [?b2]" "rows_at [''k''] [VInt 2] ?A = []"
    "rows_below [''k''] [VInt 2] ?A = [?a1]" "rows_below [''k''] [VInt 2] ?B = []"
    "rows_above [''k''] [VInt 2] ?A = [?a3]" "rows_above [''k''] [VInt 2] ?B = [?b3]"
    by (simp_all add: rows_at_def rows_below_def rows_above_def keyvals_def key_less_def)
  have e0: "Join j [''k''] [] [] = Inr []" for j
    by (simp add: ev)
  have eL: "Join (LeftJoiner ''_1'' ''_2'') [''k''] [?a3] ?B = Inr [?m]"
    by (simp add: ev)
  have eI: "Join (InnerJoiner ''_1'' ''_2'') [''k''] [?a3] ?B = Inr [?m]"
    by (simp add: ev)
  have eR1: "Join (RightJoiner ''_1'' ''_2'') [''k''] [?a1] [] = Inr []"
    by (simp add: ev)
  have eR2: "Join (RightJoiner ''_1'' ''_2'') [''k''] [?a3] [?b3] = Inr [?m]"
    by (simp add: ev)
  have eO1: "Join (OuterJoiner ''_1'' ''_2'') [''k''] [?a1] [] = Inr [?a1]"
    by (simp add: ev)
  have eO2: "Join (OuterJoiner ''_1'' ''_2'') [''k''] [?a3] [?b3] = Inr [?m]"
    by (simp add: ev)
  note t1 = unmatched_groups_as_received[OF a b c, of "[VInt 1]" "''_1''" "''_2''"]
  note t2 = unmatched_groups_as_received[OF a b c, of "[VInt 2]" "''_1''" "''_2''"]
  have L: "Join (LeftJoiner ''_1'' ''_2'') [''k''] ?A ?B = Inr ([] @ [?a1] @ [?m])"
    using t1 by (simp add: r1 e0 eL)
  have I: "Join (InnerJoiner ''_1'' ''_2'') [''k''] ?A ?B = Inr ([] @ [?m])"
    using t1 by (simp add: r1 e0 eI)
  have R: "Join (RightJoiner ''_1'' ''_2'') [''k''] ?A ?B = Inr ([] @ [?b2] @ [?m])"
    using t2 by (simp add: r2 eR1 eR2)
  have O: "Join (OuterJoiner ''_1'' ''_2'') [''k''] ?A ?B = Inr ([?a1] @ [?b2] @ [?m])"
    using t2 by (simp add: r2 eO1 eO2)
  from a b c r1(1,2) r2(1,2) L I R O show ?thesis by blast
qed

text \<open>
  Claim C5 as stated fails for key values that \<^verbatim>\<open><\<close> cannot compare: the left row with
  the key value \<open>1\<close> has no match among the right rows, whose only key value is the
  string \<open>x\<close>, and \<open>LeftJoiner\<close> and \<open>OuterJoiner\<close> emit no row: the join ends with
  \<^verbatim>\<open>TypeError\<close>.
\<close>

theorem unmatched_group_counterexample:
  "sorted_by [''k''] [[(''k'', VInt 1), (''v'', VStr ''a'')]]
   \<and> sorted_by [''k''] [[(''k'', VStr ''x'')]]
   \<and> rows_at [''k''] [VInt 1] [[(''k'', VInt 1), (''v'', VStr ''a'')]]
        = [[(''k'', VInt 1), (''v'', VStr ''a'')]]
   \<and> rows_at [''k''] [VInt 1] [[(''k'', VStr ''x'')]] = []
   \<and> Join (LeftJoiner ''_1'' ''_2'') [''k'']
        [[(''k'', VInt 1), (''v'', VStr ''a'')]] [[(''k'', VStr ''x'')]] = Inl TypeError
   \<and> Join (OuterJoiner ''_1'' ''_2'') [''k'']
        [[(''k'', VInt 1), (''v'', VStr ''a'')]] [[(''k'', VStr ''x'')]] = Inl TypeError"
  by (simp add: sorted_by_def has_keys_def contains_def keyvals_def rows_at_def Join_def getitem_def)

lemma grouped_filter:
  assumes "grouped kv gs" "(k, g) \<in> set gs"
  shows "filter (\<lambda>r. kv r = k) (concat (map snd gs)) = g"
  using assms
proof (induction gs)
  case Nil
  then show ?case by simp
next
  case (Cons p gs)
  obtain k' g' where p: "p = (k', g')" by (cases p)
  from Cons.prems(1) p have g': "\<forall>r \<in> set g'. kv r = k'"
    and lt: "\<forall>q \<in> set gs. key_less k' (fst q)"
    and tl: "grouped kv gs"
    by (auto simp: grouped_def)
  have rest: "\<forall>(k2, g2) \<in> set gs. \<forall>r \<in> set g2. kv r = k2"
    using tl by (auto simp: grouped_def)
  show ?case
  proof (cases "(k, g) \<in> set gs")
    case True
    then have "key_less k' k" using lt by force
    then have "k' \<noteq> k" using key_less_irrefl by auto
    then have "filter (\<lambda>r. kv r = k) g' = []" using g' by (auto simp: filter_empty_conv)
    with Cons.IH[OF tl True] p show ?thesis by simp
  next
    case False
    with Cons.prems(2) p have eq: "k = k'" "g = g'" by auto
    have "filter (\<lambda>r. kv r = k) (concat (map snd gs)) = []"
    proof -
      have "\<forall>r \<in> set (concat (map snd gs)). kv r \<noteq> k"
      proof
        fix r assume "r \<in> set (concat (map snd gs))"
        then obtain k2 g2 where m: "(k2, g2) \<in> set gs" "r \<in> set g2" by force
        then have "kv r = k2" using rest by auto
        moreover have "key_less k k2" using lt m(1) eq by force
        ultimately show "kv r \<noteq> k" using key_less_irrefl by auto
      qed
      then show ?thesis by (auto simp: filter_empty_conv)
    qed
    moreover have "filter (\<lambda>r. kv r = k) g' = g'" using g' eq by (auto simp: filter_id_conv)
    ultimately show ?thesis using p eq by simp
  qed
qed

lemma collect_map_Inr: "collect (map Inr outs) = Inr (concat outs)"
  by (induction outs) auto

lemma collect_first_error:
  assumes "i < length rs" "rs ! i = Inl e" "\<forall>j < i. \<exists>out. rs ! j = Inr out"
  shows "collect rs = Inl e"
  using assms
proof (induction rs arbitrary: i)
  case Nil
  then show ?case by simp
next
  case (Cons r rs)
  show ?case
  proof (cases i)
    case 0
    with Cons.prems show ?thesis by simp
  next
    case (Suc n)
    from Cons.prems(3) Suc obtain out where r: "r = Inr out" by fastforce
    have "collect rs = Inl e"
    proof (rule Cons.IH[of n])
      show "n < length rs" using Cons.prems(1) Suc by simp
      show "rs ! n = Inl e" using Cons.prems(2) Suc by simp
      show "\<forall>j < n. \<exists>out. rs ! j = Inr out"
      proof (intro allI impI)
        fix j assume "j < n"
        then have "Suc j < i" using Suc by simp
        with Cons.prems(3) have "\<exists>out. (r # rs) ! Suc j = Inr out" by blast
        then show "\<exists>out. rs ! j = Inr out" by simp
      qed
    qed
    with r show ?thesis by simp
  qed
qed

text \<open>
  Claim C7. On a stream sorted by the key tuple, \<open>Reduce\<close> cuts the stream into
  groups that, one after the other, make up the stream; each group is not empty and
  holds exactly the rows of the stream with its key value (so it is a maximal run),
  the key values of the groups strictly ascending. The reducer is applied to the key
  names and the rows of each group, and the output is what these applications return,
  every row of every one of them, group after group in the order of the groups: when
  the applications return the row lists \<open>outs\<close>, the output is \<open>concat outs\<close>. When an
  application raises and those before it return, the stream ends with its exception.
\<close>

theorem Reduce_maximal_runs:
  assumes "sorted_by keys rows"
  shows "\<exists>groups. groupby (key_of keys) rows = Inr groups
      \<and> concat (map snd groups) = rows
      \<and> (\<forall>(k, g) \<in> set groups. g \<noteq> [] \<and> g = rows_at keys k rows)
      \<and> sorted_wrt key_less (map fst groups)
      \<and> (\<forall>outs. map (\<lambda>(k, g). reducer keys g) groups = map Inr outs
             \<longrightarrow> Reduce reducer keys rows = Inr (concat outs))
      \<and> (\<forall>i e. i < length groups \<and> reducer keys (snd (groups ! i)) = Inl e
              \<and> (\<forall>j < i. \<exists>out. reducer keys (snd (groups ! j)) = Inr out)
             \<longrightarrow> Reduce reducer keys rows = Inl e)"
proof -
  let ?gs = "runs (keyvals keys) rows"
  let ?rs = "map (\<lambda>(k, g). reducer keys g) ?gs"
  have g: "groupby (key_of keys) rows = Inr ?gs"
    by (rule sorted_by_groupby[OF assms])
  have gr: "grouped (keyvals keys) ?gs"
    by (rule sorted_by_runs[OF assms])
  have 1: "\<forall>(k, g) \<in> set ?gs. g \<noteq> [] \<and> g = rows_at keys k rows"
  proof clarify
    fix k g assume m: "(k, g) \<in> set ?gs"
    have "filter (\<lambda>r. keyvals keys r = k) (concat (map snd ?gs)) = g"
      by (rule grouped_filter[OF gr m])
    then have "g = rows_at keys k rows" by (simp add: concat_runs rows_at_def)
    moreover have "g \<noteq> []" using runs_group[OF m] by simp
    ultimately show "g \<noteq> [] \<and> g = rows_at keys k rows" by simp
  qed
  have 2: "sorted_wrt key_less (map fst ?gs)" using gr by (simp add: grouped_def)
  have R: "Reduce reducer keys rows = collect ?rs"
    by (simp add: Reduce_def g)
  have 3: "\<forall>outs. ?rs = map Inr outs \<longrightarrow> Reduce reducer keys rows = Inr (concat outs)"
    by (simp add: R collect_map_Inr)
  have 4: "\<forall>i e. i < length ?gs \<and> reducer keys (snd (?gs ! i)) = Inl e
              \<and> (\<forall>j < i. \<exists>out. reducer keys (snd (?gs ! j)) = Inr out)
             \<longrightarrow> Reduce reducer keys rows = Inl e"
  proof (intro allI impI)
    fix i e
    assume a: "i < length ?gs \<and> reducer keys (snd (?gs ! i)) = Inl e
              \<and> (\<forall>j < i. \<exists>out. reducer keys (snd (?gs ! j)) = Inr out)"
    have nth: "?rs ! j = reducer keys (snd (?gs ! j))" if "j < length ?gs" for j
      using that by (simp add: case_prod_beta)
    have "collect ?rs = Inl e"
    proof (rule collect_first_error[of i])
      show "i < length ?rs" using a by simp
      show "?rs ! i = Inl e" using a nth by simp
      show "\<forall>j < i. \<exists>out. ?rs ! j = Inr out"
      proof (intro allI impI)
        fix j assume "j < i"
        then have "j < length ?gs" using a by simp
        with a \<open>j < i\<close> nth show "\<exists>out. ?rs ! j = Inr out" by simp
      qed
    qed
    with R show "Reduce reducer keys rows = Inl e" by simp
  qed
  from g concat_runs[of "keyvals keys" rows] 1 2 3 4 show ?thesis by blast
qed

theorem Reduce_maximal_runs_witness:
  "sorted_by [''k''] [[(''k'', VInt 1)], [(''k'', VInt 1), (''x'', VNone)], [(''k'', VInt 2)]]
   \<and> groupby (key_of [''k''])
          [[(''k'', VInt 1)], [(''k'', VInt 1), (''x'', VNone)], [(''k'', VInt 2)]]
       = Inr [([VInt 1], [[(''k'', VInt 1)], [(''k'', VInt 1), (''x'', VNone)]]),
              ([VInt 2], [[(''k'', VInt 2)]])]
   \<and> Reduce (\<lambda>group_key rows. Inr (rev rows)) [''k'']
          [[(''k'', VInt 1)], [(''k'', VInt 1), (''x'', VNone)], [(''k'', VInt 2)]]
       = Inr [[(''k'', VInt 1), (''x'', VNone)], [(''k'', VInt 1)], [(''k'', VInt 2)]]
   \<and> Reduce (Count ''n'') [''k'']
          [[(''k'', VInt 1)], [(''k'', VInt 1), (''x'', VNone)], [(''k'', VInt 2)]]
       = Inr [[(''k'', VInt 1), (''n'', VInt 2)], [(''k'', VInt 2), (''n'', VInt 1)]]
   \<and> Reduce (\<lambda>group_key rows. if length rows = 1 then Inl TypeError else Inr rows) [''k'']
          [[(''k'', VInt 1)], [(''k'', VInt 1), (''x'', VNone)], [(''k'', VInt 2)]]
       = Inl TypeError"
proof -
  let ?rows = "[[(''k'', VInt 1)], [(''k'', VInt 1), (''x'', VNone)], [(''k'', VInt 2)]]"
  let ?gs = "[([VInt 1], [[(''k'', VInt 1)], [(''k'', VInt 1), (''x'', VNone)]]),
              ([VInt 2], [[(''k'', VInt 2)]])]"
  have s: "sorted_by [''k''] ?rows"
    by (simp add: sorted_by_def has_keys_def contains_def keyvals_def key_le_iff)
  have g: "groupby (key_of [''k'']) ?rows = Inr ?gs"
    by (simp add: getitem_def)
  have a: "(\<forall>outs. map (\<lambda>(k, g). reducer [''k''] g) ?gs = map Inr outs
             \<longrightarrow> Reduce reducer [''k''] ?rows = Inr (concat outs))
      \<and> (\<forall>i e. i < length ?gs \<and> reducer [''k''] (snd (?gs ! i)) = Inl e
              \<and> (\<forall>j < i. \<exists>out. reducer [''k''] (snd (?gs ! j)) = Inr out)
             \<longrightarrow> Reduce reducer [''k''] ?rows = Inl e)" for reducer
    using Reduce_maximal_runs[OF s, of reducer] g by auto
  have 1: "Reduce (\<lambda>group_key rows. Inr (rev rows)) [''k''] ?rows
       = Inr [[(''k'', VInt 1), (''x'', VNone)], [(''k'', VInt 1)], [(''k'', VInt 2)]]"
    using a[of "\<lambda>group_key rows. Inr (rev rows)", THEN conjunct1, rule_format,
        of "[[[(''k'', VInt 1), (''x'', VNone)], [(''k'', VInt 1)]], [[(''k'', VInt 2)]]]"]
    by simp
  have 2: "Reduce (Count ''n'') [''k''] ?rows
       = Inr [[(''k'', VInt 1), (''n'', VInt 2)], [(''k'', VInt 2), (''n'', VInt 1)]]"
    using a[of "Count ''n''", THEN conjunct1, rule_format,
        of "[[[(''k'', VInt 1), (''n'', VInt 2)]], [[(''k'', VInt 2), (''n'', VInt 1)]]]"]
    by (simp add: Count_def getitem_def setitem_def)
  have 3: "Reduce (\<lambda>group_key rows. if length rows = 1 then Inl TypeError else Inr rows) [''k''] ?rows
       = Inl TypeError"
    using a[of "\<lambda>group_key rows. if length rows = 1 then Inl TypeError else Inr rows",
        THEN conjunct2, rule_format, of 1 TypeError]
    by (simp add: less_Suc_eq)
  from s g 1 2 3 show ?thesis by simp
qed

lemma grouped_Cons:
  "grouped kv ((k, g) # gs) \<longleftrightarrow>
     g \<noteq> [] \<and> (\<forall>r \<in> set g. kv r = k) \<and> (\<forall>q \<in> set gs. key_less k (fst q)) \<and> grouped kv gs"
  by (auto simp: grouped_def)

lemma grouped_rows_above:
  assumes "grouped kv gs" "\<forall>q \<in> set gs. key_less k (fst q)" "r \<in> set (concat (map snd gs))"
  shows "key_less k (kv r)"
proof -
  from assms(3) obtain k2 g2 where m: "(k2, g2) \<in> set gs" "r \<in> set g2" by force
  then have "kv r = k2" using assms(1) by (auto simp: grouped_def)
  moreover have "key_less k k2" using assms(2) m(1) by force
  ultimately show ?thesis by simp
qed


lemma filter_key_above:
  assumes "\<And>r. r \<in> set xs \<Longrightarrow> key_less k (kv r)"
  shows "filter (\<lambda>b. kv b = k) xs = []"
proof -
  have "\<forall>r \<in> set xs. kv r \<noteq> k"
    using assms key_less_irrefl by metis
  then show ?thesis by (simp add: filter_empty_conv)
qed

lemma filter_key_other:
  assumes "\<forall>r \<in> set xs. kv r = k'" "k' \<noteq> k"
  shows "filter (\<lambda>b. kv b = k) xs = []"
  using assms by (simp add: filter_empty_conv)

lemma filter_key_same:
  assumes "\<forall>r \<in> set xs. kv r = k"
  shows "filter (\<lambda>b. kv b = k) xs = xs"
  using assms by (simp add: filter_id_conv)

lemma Join_loop_inner:
  assumes "grouped kv gas" "grouped kv gbs"
    and "\<forall>(k, g) \<in> set gas. \<forall>a \<in> set g. has_keys keys a"
    and "\<forall>ka \<in> fst ` set gas. \<forall>kb \<in> fst ` set gbs. ka = kb \<or> key_lt ka kb = Some True
        \<or> (key_lt ka kb = Some False \<and> key_lt kb ka = Some True)"
  shows "Join_loop (InnerJoiner sa sb) keys gas gbs =
    Inr (concat (map (\<lambda>a. map (merged sa sb keys a)
           (filter (\<lambda>b. kv b = kv a) (concat (map snd gbs)))) (concat (map snd gas))))"
  using assms
proof (induction "InnerJoiner sa sb" keys gas gbs rule: Join_loop.induct)
  case (1 keys gbs)
  then show ?case by (simp add: drain_b_concat)
next
  case (2 keys key_a group_a gas)
  then show ?case by (simp add: drain_a_concat del: drain_a.simps)
next
  case (3 keys key_a group_a gas key_b group_b gbs)
  let ?F = "\<lambda>bs a. map (merged sa sb keys a) (filter (\<lambda>b. kv b = kv a) bs)"
  let ?restb = "concat (map snd gbs)"
  let ?resta = "concat (map snd gas)"
  from "3.prems"(1) have ga: "\<forall>r \<in> set group_a. kv r = key_a"
    and lta: "\<forall>q \<in> set gas. key_less key_a (fst q)" and gra: "grouped kv gas"
    by (auto simp: grouped_Cons)
  from "3.prems"(2) have gb: "\<forall>r \<in> set group_b. kv r = key_b"
    and ltb: "\<forall>q \<in> set gbs. key_less key_b (fst q)" and grb: "grouped kv gbs"
    by (auto simp: grouped_Cons)
  have above_a: "\<And>r. r \<in> set ?resta \<Longrightarrow> key_less key_a (kv r)"
    using grouped_rows_above[OF gra lta] by blast
  have above_b: "\<And>r. r \<in> set ?restb \<Longrightarrow> key_less key_b (kv r)"
    using grouped_rows_above[OF grb ltb] by blast
  have hk: "\<forall>a \<in> set group_a. has_keys keys a" using "3.prems"(3) by auto
  show ?case
  proof (cases "key_a = key_b")
    case True
    have IH: "Join_loop (InnerJoiner sa sb) keys gas gbs
        = Inr (concat (map (?F ?restb) ?resta))"
      by (rule "3.hyps"(1)[OF True gra grb]) (use "3.prems" in auto)
    have 1: "\<And>a. a \<in> set group_a \<Longrightarrow> ?F (group_b @ ?restb) a = map (merged sa sb keys a) group_b"
    proof -
      fix a assume "a \<in> set group_a"
      then have ka: "kv a = key_b" using ga True by simp
      have "filter (\<lambda>b. kv b = kv a) group_b = group_b"
        unfolding ka by (rule filter_key_same[OF gb])
      moreover have "filter (\<lambda>b. kv b = kv a) ?restb = []"
        unfolding ka by (rule filter_key_above) (rule above_b)
      ultimately show "?F (group_b @ ?restb) a = map (merged sa sb keys a) group_b" by simp
    qed
    have 2: "\<And>a. a \<in> set ?resta \<Longrightarrow> ?F (group_b @ ?restb) a = ?F ?restb a"
    proof -
      fix a assume "a \<in> set ?resta"
      then have "key_less key_b (kv a)" using above_a True by simp
      then have "key_b \<noteq> kv a" using key_less_irrefl by metis
      then have "filter (\<lambda>b. kv b = kv a) group_b = []"
        by (rule filter_key_other[OF gb])
      then show "?F (group_b @ ?restb) a = ?F ?restb a" by simp
    qed
    have m1: "map (?F (group_b @ ?restb)) group_a = map (\<lambda>a. map (merged sa sb keys a) group_b) group_a"
      by (rule map_cong[OF refl]) (rule 1)
    have m2: "map (?F (group_b @ ?restb)) ?resta = map (?F ?restb) ?resta"
      by (rule map_cong[OF refl]) (rule 2)
    have "concat (map (?F (group_b @ ?restb)) (group_a @ ?resta))
        = concat (map (\<lambda>a. map (merged sa sb keys a) group_b) group_a) @ concat (map (?F ?restb) ?resta)"
      by (simp only: map_append concat_append m1 m2)
    with True IH show ?thesis by (simp add: pairs_a_major_Inr[OF hk])
  next
    case False
    with "3.prems"(4) obtain t where t: "key_lt key_a key_b = Some t" by auto
    show ?thesis
    proof (cases t)
      case True
      have IH: "Join_loop (InnerJoiner sa sb) keys gas ((key_b, group_b) # gbs)
          = Inr (concat (map (?F (group_b @ ?restb)) ?resta))"
        using "3.hyps"(2)[OF False t _ gra "3.prems"(2)] True "3.prems"(3,4) by auto
      have lt: "key_less key_a key_b" using t True by (simp add: key_less_def)
      have "\<And>a. a \<in> set group_a \<Longrightarrow> ?F (group_b @ ?restb) a = []"
      proof -
        fix a assume "a \<in> set group_a"
        then have ka: "kv a = key_a" using ga by simp
        have "filter (\<lambda>b. kv b = kv a) group_b = []"
          unfolding ka using False by (intro filter_key_other[OF gb]) simp
        moreover have "filter (\<lambda>b. kv b = kv a) ?restb = []"
          unfolding ka by (rule filter_key_above) (rule key_less_trans[OF lt above_b])
        ultimately show "?F (group_b @ ?restb) a = []" by simp
      qed
      then have "map (?F (group_b @ ?restb)) group_a = map (\<lambda>a. []) group_a"
        by (intro map_cong[OF refl])
      then have "concat (map (?F (group_b @ ?restb)) (group_a @ ?resta))
          = concat (map (?F (group_b @ ?restb)) ?resta)"
        by (simp only: map_append concat_append) simp
      with False t True IH show ?thesis by (simp add: unmatched_a_Inr)
    next
      case F: False
      have IH: "Join_loop (InnerJoiner sa sb) keys ((key_a, group_a) # gas) gbs
          = Inr (concat (map (?F ?restb) (group_a @ ?resta)))"
        using "3.hyps"(3)[OF False t _ "3.prems"(1) grb] F "3.prems"(3,4) by auto
      have gt: "key_less key_b key_a"
        using t F False "3.prems"(4) by (auto simp: key_less_def)
      have "\<And>a. a \<in> set (group_a @ ?resta) \<Longrightarrow> ?F (group_b @ ?restb) a = ?F ?restb a"
      proof -
        fix a assume "a \<in> set (group_a @ ?resta)"
        then have "key_less key_b (kv a)"
          using ga above_a gt key_less_trans[OF gt] by auto
        then have "key_b \<noteq> kv a" using key_less_irrefl by metis
        then have "filter (\<lambda>b. kv b = kv a) group_b = []"
          by (rule filter_key_other[OF gb])
        then show "?F (group_b @ ?restb) a = ?F ?restb a" by simp
      qed
      then have "map (?F (group_b @ ?restb)) (group_a @ ?resta) = map (?F ?restb) (group_a @ ?resta)"
        by (intro map_cong[OF refl])
      then have "concat (map (?F (group_b @ ?restb)) (group_a @ ?resta))
          = concat (map (?F ?restb) (group_a @ ?resta))"
        by (rule arg_cong)
      with False t F IH show ?thesis by (simp add: unmatched_b_Inr)
    qed
  qed
qed

lemma mset_concat_swap:
  "mset (concat (map (\<lambda>b. map (\<lambda>a. f a b) as) bs)) = mset (concat (map (\<lambda>a. map (f a) bs) as))"
proof (induction bs)
  case Nil
  then show ?case by (induction as) auto
next
  case (Cons b bs)
  have "mset (concat (map (\<lambda>a. map (f a) (b # bs)) as))
      = mset (map (\<lambda>a. f a b) as) + mset (concat (map (\<lambda>a. map (f a) bs) as))"
    by (induction as) auto
  with Cons show ?case by simp
qed

lemma joiner_call_mset:
  assumes "ga \<noteq> []" "gb \<noteq> []" "\<forall>a \<in> set ga. has_keys keys a"
  shows "\<exists>out. joiner_call j keys ga gb = Inr out
     \<and> mset out = mset (concat (map (\<lambda>a. map (merged (a_suffix j) (b_suffix j) keys a) gb) ga))"
proof (cases j)
  case (RightJoiner sa sb)
  then show ?thesis
    using assms mset_concat_swap[of "merged sa sb keys" ga gb]
    by (simp add: pairs_b_major_Inr)
qed (use assms in \<open>simp_all add: pairs_a_major_Inr\<close>)

lemma filter_unmatched_rest:
  assumes "\<forall>r \<in> set g. kv r = k" "\<And>r. r \<in> set xs \<Longrightarrow> key_less k (kv r)"
  shows "filter (\<lambda>a. kv a \<notin> kv ` set (g @ ys)) xs = filter (\<lambda>a. kv a \<notin> kv ` set ys) xs"
proof (rule filter_cong[OF refl])
  fix a assume "a \<in> set xs"
  then have "kv a \<noteq> k" using assms(2) key_less_irrefl by metis
  then have "kv a \<notin> kv ` set g" using assms(1) by auto
  then show "(kv a \<notin> kv ` set (g @ ys)) = (kv a \<notin> kv ` set ys)" by auto
qed

lemma filter_unmatched_group:
  assumes "\<forall>r \<in> set g. kv r = k" "k \<notin> kv ` set ys"
  shows "filter (\<lambda>a. kv a \<notin> kv ` set ys) g = g"
  using assms by (auto simp: filter_id_conv)

lemma filter_matched_group:
  assumes "\<forall>r \<in> set g. kv r = k" "k \<in> kv ` set ys"
  shows "filter (\<lambda>a. kv a \<notin> kv ` set ys) g = []"
  using assms by (auto simp: filter_empty_conv)

lemma Join_loop_mset:
  assumes "grouped kv gas" "grouped kv gbs"
    and "\<forall>(k, g) \<in> set gas. \<forall>a \<in> set g. has_keys keys a"
    and "\<forall>ka \<in> fst ` set gas. \<forall>kb \<in> fst ` set gbs. ka = kb \<or> key_lt ka kb = Some True
        \<or> (key_lt ka kb = Some False \<and> key_lt kb ka = Some True)"
  shows "\<exists>out. Join_loop j keys gas gbs = Inr out \<and>
    mset out =
      mset (concat (map (\<lambda>a. map (merged (a_suffix j) (b_suffix j) keys a)
           (filter (\<lambda>b. kv b = kv a) (concat (map snd gbs)))) (concat (map snd gas))))
      + (if is_left_or_outer j
         then mset (filter (\<lambda>a. kv a \<notin> kv ` set (concat (map snd gbs))) (concat (map snd gas)))
         else {#})
      + (if is_right_or_outer j
         then mset (filter (\<lambda>b. kv b \<notin> kv ` set (concat (map snd gas))) (concat (map snd gbs)))
         else {#})"
  using assms
proof (induction j keys gas gbs rule: Join_loop.induct)
  case (1 j keys gbs)
  then show ?case by (simp add: drain_b_concat)
next
  case (2 j keys key_a group_a gas)
  then show ?case by (simp add: drain_a_concat del: drain_a.simps)
next
  case (3 j keys key_a group_a gas key_b group_b gbs)
  let ?sa = "a_suffix j" and ?sb = "b_suffix j"
  let ?P = "\<lambda>gas gbs. concat (map (\<lambda>a. map (merged ?sa ?sb keys a)
           (filter (\<lambda>b. kv b = kv a) (concat (map snd gbs)))) (concat (map snd gas)))"
  let ?I = "InnerJoiner ?sa ?sb"
  let ?restb = "concat (map snd gbs)"
  let ?resta = "concat (map snd gas)"
  let ?ga = "(key_a, group_a) # gas" and ?gb = "(key_b, group_b) # gbs"
  note prems = "3.prems"
  from prems(1) have ga: "\<forall>r \<in> set group_a. kv r = key_a" and na: "group_a \<noteq> []"
    and lta: "\<forall>q \<in> set gas. key_less key_a (fst q)" and gra: "grouped kv gas"
    by (auto simp: grouped_Cons)
  from prems(2) have gb: "\<forall>r \<in> set group_b. kv r = key_b" and nb: "group_b \<noteq> []"
    and ltb: "\<forall>q \<in> set gbs. key_less key_b (fst q)" and grb: "grouped kv gbs"
    by (auto simp: grouped_Cons)
  have above_a: "\<And>r. r \<in> set ?resta \<Longrightarrow> key_less key_a (kv r)"
    using grouped_rows_above[OF gra lta] by blast
  have above_b: "\<And>r. r \<in> set ?restb \<Longrightarrow> key_less key_b (kv r)"
    using grouped_rows_above[OF grb ltb] by blast
  have hk: "\<forall>a \<in> set group_a. has_keys keys a" using prems(3) by auto
  have hk': "\<forall>(k, g) \<in> set gas. \<forall>a \<in> set g. has_keys keys a" using prems(3) by auto
  have c1: "\<forall>ka \<in> fst ` set gas. \<forall>kb \<in> fst ` set gbs. ka = kb \<or> key_lt ka kb = Some True
        \<or> (key_lt ka kb = Some False \<and> key_lt kb ka = Some True)"
    using prems(4) by auto
  have c2: "\<forall>ka \<in> fst ` set gas. \<forall>kb \<in> fst ` set ?gb. ka = kb \<or> key_lt ka kb = Some True
        \<or> (key_lt ka kb = Some False \<and> key_lt kb ka = Some True)"
    using prems(4) by auto
  have c3: "\<forall>ka \<in> fst ` set ?ga. \<forall>kb \<in> fst ` set gbs. ka = kb \<or> key_lt ka kb = Some True
        \<or> (key_lt ka kb = Some False \<and> key_lt kb ka = Some True)"
    using prems(4) by auto
  have inner_full: "Join_loop ?I keys ?ga ?gb = Inr (?P ?ga ?gb)"
    by (rule Join_loop_inner[OF prems(1,2,3,4)])
  have ka_in: "key_a \<in> kv ` set group_a" using ga na by (cases group_a) auto
  have kb_in: "key_b \<in> kv ` set group_b" using gb nb by (cases group_b) auto
  have ka_notin_rest: "key_a \<notin> kv ` set ?resta"
    using above_a key_less_irrefl by (metis imageE)
  have kb_notin_rest: "key_b \<notin> kv ` set ?restb"
    using above_b key_less_irrefl by (metis imageE)
  show ?case
  proof (cases "key_a = key_b")
    case True
    have "Join_loop ?I keys gas gbs = Inr (?P gas gbs)"
      by (rule Join_loop_inner[OF gra grb hk' c1])
    with inner_full True have P: "?P ?ga ?gb
        = concat (map (\<lambda>a. map (merged ?sa ?sb keys a) group_b) group_a) @ ?P gas gbs"
      by (simp add: pairs_a_major_Inr[OF hk])
    obtain o1 where o1: "joiner_call j keys group_a group_b = Inr o1"
      "mset o1 = mset (concat (map (\<lambda>a. map (merged ?sa ?sb keys a) group_b) group_a))"
      using joiner_call_mset[OF na nb hk] by blast
    obtain o2 where o2: "Join_loop j keys gas gbs = Inr o2"
      "mset o2 = mset (?P gas gbs)
        + (if is_left_or_outer j then mset (filter (\<lambda>a. kv a \<notin> kv ` set ?restb) ?resta) else {#})
        + (if is_right_or_outer j then mset (filter (\<lambda>b. kv b \<notin> kv ` set ?resta) ?restb) else {#})"
      using "3.IH"(1)[OF True gra grb hk' c1] by blast
    have ua: "filter (\<lambda>a. kv a \<notin> kv ` set (group_b @ ?restb)) (group_a @ ?resta)
        = filter (\<lambda>a. kv a \<notin> kv ` set ?restb) ?resta"
    proof -
      have "filter (\<lambda>a. kv a \<notin> kv ` set (group_b @ ?restb)) group_a = []"
        by (rule filter_matched_group[OF ga]) (use kb_in True in auto)
      moreover have "filter (\<lambda>a. kv a \<notin> kv ` set (group_b @ ?restb)) ?resta
          = filter (\<lambda>a. kv a \<notin> kv ` set ?restb) ?resta"
        by (rule filter_unmatched_rest[OF gb]) (use above_a True in auto)
      ultimately show ?thesis by simp
    qed
    have ub: "filter (\<lambda>b. kv b \<notin> kv ` set (group_a @ ?resta)) (group_b @ ?restb)
        = filter (\<lambda>b. kv b \<notin> kv ` set ?resta) ?restb"
    proof -
      have "filter (\<lambda>b. kv b \<notin> kv ` set (group_a @ ?resta)) group_b = []"
        by (rule filter_matched_group[OF gb]) (use ka_in True in auto)
      moreover have "filter (\<lambda>b. kv b \<notin> kv ` set (group_a @ ?resta)) ?restb
          = filter (\<lambda>b. kv b \<notin> kv ` set ?resta) ?restb"
        by (rule filter_unmatched_rest[OF ga]) (use above_b True in auto)
      ultimately show ?thesis by simp
    qed
    have "Join_loop j keys ?ga ?gb = Inr (o1 @ o2)" using True o1(1) o2(1) by simp
    moreover have "mset (o1 @ o2) = mset (?P ?ga ?gb)
        + (if is_left_or_outer j
           then mset (filter (\<lambda>a. kv a \<notin> kv ` set (concat (map snd ?gb))) (concat (map snd ?ga)))
           else {#})
        + (if is_right_or_outer j
           then mset (filter (\<lambda>b. kv b \<notin> kv ` set (concat (map snd ?ga))) (concat (map snd ?gb)))
           else {#})"
      unfolding P using o1(2) o2(2) ua ub by simp
    ultimately show ?thesis by blast
  next
    case False
    with prems(4) obtain t where t: "key_lt key_a key_b = Some t" by auto
    show ?thesis
    proof (cases t)
      case True
      have lt: "key_less key_a key_b" using t True by (simp add: key_less_def)
      have "Join_loop ?I keys gas ?gb = Inr (?P gas ?gb)"
        by (rule Join_loop_inner[OF gra prems(2) hk' c2])
      with inner_full False t True have P: "?P ?ga ?gb = ?P gas ?gb"
        by (simp add: unmatched_a_Inr)
      have IH: "\<exists>out. Join_loop j keys gas ?gb = Inr out \<and> mset out = mset (?P gas ?gb)
        + (if is_left_or_outer j then mset (filter (\<lambda>a. kv a \<notin> kv ` set (concat (map snd ?gb))) ?resta) else {#})
        + (if is_right_or_outer j then mset (filter (\<lambda>b. kv b \<notin> kv ` set ?resta) (concat (map snd ?gb))) else {#})"
        by (rule "3.IH"(2)[OF False t _ gra prems(2) hk' c2]) (use True in simp)
      then obtain o2 where o2: "Join_loop j keys gas ?gb = Inr o2"
        "mset o2 = mset (?P gas ?gb)
        + (if is_left_or_outer j then mset (filter (\<lambda>a. kv a \<notin> kv ` set (concat (map snd ?gb))) ?resta) else {#})
        + (if is_right_or_outer j then mset (filter (\<lambda>b. kv b \<notin> kv ` set ?resta) (concat (map snd ?gb))) else {#})"
        by blast
      have allb: "\<And>r. r \<in> set (group_b @ ?restb) \<Longrightarrow> key_less key_a (kv r)"
        using gb above_b lt key_less_trans[OF lt] by auto
      have "key_a \<notin> kv ` set (group_b @ ?restb)"
        using allb key_less_irrefl by (metis imageE)
      then have ua1: "filter (\<lambda>a. kv a \<notin> kv ` set (group_b @ ?restb)) group_a = group_a"
        by (rule filter_unmatched_group[OF ga])
      have ub: "filter (\<lambda>b. kv b \<notin> kv ` set (group_a @ ?resta)) (group_b @ ?restb)
          = filter (\<lambda>b. kv b \<notin> kv ` set ?resta) (group_b @ ?restb)"
        by (rule filter_unmatched_rest[OF ga allb])
      have "Join_loop j keys ?ga ?gb = Inr ((if is_left_or_outer j then group_a else []) @ o2)"
        using False t True o2(1) by (simp add: unmatched_a_Inr)
      moreover have "mset ((if is_left_or_outer j then group_a else []) @ o2) = mset (?P ?ga ?gb)
        + (if is_left_or_outer j
           then mset (filter (\<lambda>a. kv a \<notin> kv ` set (concat (map snd ?gb))) (concat (map snd ?ga)))
           else {#})
        + (if is_right_or_outer j
           then mset (filter (\<lambda>b. kv b \<notin> kv ` set (concat (map snd ?ga))) (concat (map snd ?gb)))
           else {#})"
        unfolding P using o2(2) ua1 ub by simp
      ultimately show ?thesis by blast
    next
      case F: False
      have gt: "key_less key_b key_a"
        using t F False prems(4) by (auto simp: key_less_def)
      have "Join_loop ?I keys ?ga gbs = Inr (?P ?ga gbs)"
        by (rule Join_loop_inner[OF prems(1) grb prems(3) c3])
      with inner_full False t F have P: "?P ?ga ?gb = ?P ?ga gbs"
        by (simp add: unmatched_b_Inr)
      have IH: "\<exists>out. Join_loop j keys ?ga gbs = Inr out \<and> mset out = mset (?P ?ga gbs)
        + (if is_left_or_outer j then mset (filter (\<lambda>a. kv a \<notin> kv ` set ?restb) (concat (map snd ?ga))) else {#})
        + (if is_right_or_outer j then mset (filter (\<lambda>b. kv b \<notin> kv ` set (concat (map snd ?ga))) ?restb) else {#})"
        by (rule "3.IH"(3)[OF False t _ prems(1) grb prems(3) c3]) (use F in simp)
      then obtain o2 where o2: "Join_loop j keys ?ga gbs = Inr o2"
        "mset o2 = mset (?P ?ga gbs)
        + (if is_left_or_outer j then mset (filter (\<lambda>a. kv a \<notin> kv ` set ?restb) (concat (map snd ?ga))) else {#})
        + (if is_right_or_outer j then mset (filter (\<lambda>b. kv b \<notin> kv ` set (concat (map snd ?ga))) ?restb) else {#})"
        by blast
      have alla: "\<And>r. r \<in> set (group_a @ ?resta) \<Longrightarrow> key_less key_b (kv r)"
        using ga above_a gt key_less_trans[OF gt] by auto
      have "key_b \<notin> kv ` set (group_a @ ?resta)"
        using alla key_less_irrefl by (metis imageE)
      then have ub1: "filter (\<lambda>b. kv b \<notin> kv ` set (group_a @ ?resta)) group_b = group_b"
        by (rule filter_unmatched_group[OF gb])
      have ua: "filter (\<lambda>a. kv a \<notin> kv ` set (group_b @ ?restb)) (group_a @ ?resta)
          = filter (\<lambda>a. kv a \<notin> kv ` set ?restb) (group_a @ ?resta)"
        by (rule filter_unmatched_rest[OF gb alla])
      have "Join_loop j keys ?ga ?gb = Inr ((if is_right_or_outer j then group_b else []) @ o2)"
        using False t F o2(1) by (simp add: unmatched_b_Inr)
      moreover have "mset ((if is_right_or_outer j then group_b else []) @ o2) = mset (?P ?ga ?gb)
        + (if is_left_or_outer j
           then mset (filter (\<lambda>a. kv a \<notin> kv ` set (concat (map snd ?gb))) (concat (map snd ?ga)))
           else {#})
        + (if is_right_or_outer j
           then mset (filter (\<lambda>b. kv b \<notin> kv ` set (concat (map snd ?ga))) (concat (map snd ?gb)))
           else {#})"
        unfolding P using o2(2) ub1 ua by simp
      ultimately show ?thesis by blast
    qed
  qed
qed

lemma update_append_new: "k \<notin> fst ` set r \<Longrightarrow> AList.update k v r = r @ [(k, v)]"
  by (induction r) auto

lemma dict_update_distinct:
  "distinct (map fst (ans @ items)) \<Longrightarrow> dict_update ans items = ans @ items"
proof (induction items arbitrary: ans)
  case Nil
  then show ?case by (simp add: dict_update_def)
next
  case (Cons p items)
  obtain k v where p: "p = (k, v)" by (cases p)
  from Cons.prems p have new: "k \<notin> fst ` set ans" by auto
  from Cons.prems p have d: "distinct (map fst ((ans @ [(k, v)]) @ items))" by auto
  have "dict_update ans (p # items) = dict_update (ans @ [(k, v)]) items"
    using new p by (simp add: dict_update_def setitem_def update_append_new)
  also have "\<dots> = (ans @ [(k, v)]) @ items" by (rule Cons.IH[OF d])
  finally show ?case using p by simp
qed

lemma dict_of_distinct: "distinct (map fst items) \<Longrightarrow> dict_of items = items"
  using dict_update_distinct[of "[]" items] by (simp add: dict_of_def)

lemma merged_distinct:
  assumes "distinct (map fst (zip keys (keyvals keys a) @ renamed sa keys a b @ renamed sb keys b a))"
  shows "merged sa sb keys a b = zip keys (keyvals keys a) @ renamed sa keys a b @ renamed sb keys b a"
proof -
  let ?Z = "zip keys (keyvals keys a)" and ?A = "renamed sa keys a b" and ?B = "renamed sb keys b a"
  from assms have dz: "distinct (map fst ?Z)" and da: "distinct (map fst ?A)"
    and db: "distinct (map fst ?B)" and dza: "distinct (map fst (?Z @ ?A))"
    by auto
  have "dict_update (dict_of ?Z) (dict_of ?A) = ?Z @ ?A"
    using dict_update_distinct[OF dza] by (simp add: dict_of_distinct[OF dz] dict_of_distinct[OF da])
  moreover have "dict_update (?Z @ ?A) (dict_of ?B) = (?Z @ ?A) @ ?B"
    unfolding dict_of_distinct[OF db] by (rule dict_update_distinct) (use assms in simp)
  ultimately show ?thesis by (simp add: merged_def)
qed

lemma runs_has_keys:
  assumes "\<forall>r \<in> set rows. has_keys keys r"
  shows "\<forall>(k, g) \<in> set (runs kv rows). \<forall>a \<in> set g. has_keys keys a"
proof clarify
  fix k g a assume "(k, g) \<in> set (runs kv rows)" "a \<in> set g"
  then have "a \<in> set (concat (map snd (runs kv rows)))" by force
  then show "has_keys keys a" using assms by (simp only: concat_runs)
qed

lemma runs_comparable:
  assumes "comparable keys rows_a rows_b"
  shows "\<forall>ka \<in> fst ` set (runs (keyvals keys) rows_a).
      \<forall>kb \<in> fst ` set (runs (keyvals keys) rows_b). ka = kb \<or> key_lt ka kb = Some True
        \<or> (key_lt ka kb = Some False \<and> key_lt kb ka = Some True)"
  unfolding keys_runs
proof (intro ballI)
  fix ka kb assume "ka \<in> keyvals keys ` set rows_a" "kb \<in> keyvals keys ` set rows_b"
  then obtain a b where "a \<in> set rows_a" "b \<in> set rows_b" "ka = keyvals keys a" "kb = keyvals keys b"
    by auto
  then show "ka = kb \<or> key_lt ka kb = Some True
        \<or> (key_lt ka kb = Some False \<and> key_lt kb ka = Some True)"
    using comparable_keys[OF assms, of a b] by simp
qed

lemma map_fst_renamed:
  "map fst (renamed suffix keys row other)
     = map (\<lambda>name. if contains other name then name @ suffix else name)
         (filter (\<lambda>name. name \<notin> set keys) (map fst row))"
  by (induction row) (auto simp: renamed_def)

lemma map_fst_zip_keyvals: "map fst (zip keys (keyvals keys a)) = keys"
  by (simp add: keyvals_def)

lemma joined_names_conv:
  "map fst (zip keys (keyvals keys a) @ renamed sa keys a b @ renamed sb keys b a)
     = joined_names sa sb keys a b"
  by (simp add: joined_names_def map_fst_renamed map_fst_zip_keyvals)

lemma zip_keyvals_mem:
  assumes "key \<in> set keys" "map_of a key = Some v"
  shows "(key, v) \<in> set (zip keys (keyvals keys a))"
proof -
  have "zip keys (keyvals keys a)
      = map (\<lambda>k. (k, case map_of a k of Some v \<Rightarrow> v | None \<Rightarrow> VNone)) keys"
    by (simp add: keyvals_def zip_map2 zip_same_conv_map)
  then show ?thesis using assms by force
qed

lemma renamed_mem:
  assumes "(name, v) \<in> set row" "name \<notin> set keys"
  shows "((if contains other name then name @ suffix else name), v) \<in> set (renamed suffix keys row other)"
  using assms by (force simp: renamed_def)

lemma get_ans_fields:
  assumes hk: "has_keys keys a"
    and d: "distinct (joined_names sa sb keys a b)"
  shows "\<exists>row. get_ans sa sb a b keys = Inr row
      \<and> map fst row = joined_names sa sb keys a b
      \<and> (\<forall>key \<in> set keys. map_of row key = map_of a key)
      \<and> (\<forall>(name, v) \<in> set a. name \<notin> set keys \<longrightarrow>
            (contains b name \<longrightarrow> map_of row (name @ sa) = Some v)
          \<and> (\<not> contains b name \<longrightarrow> map_of row name = Some v))
      \<and> (\<forall>(name, v) \<in> set b. name \<notin> set keys \<longrightarrow>
            (contains a name \<longrightarrow> map_of row (name @ sb) = Some v)
          \<and> (\<not> contains a name \<longrightarrow> map_of row name = Some v))"
proof -
  let ?row = "zip keys (keyvals keys a) @ renamed sa keys a b @ renamed sb keys b a"
  have dr: "distinct (map fst ?row)" using d by (simp only: joined_names_conv)
  have m: "merged sa sb keys a b = ?row" by (rule merged_distinct[OF dr])
  have g: "get_ans sa sb a b keys = Inr ?row"
    using get_ans_merged[OF hk, of sa sb b] m by simp
  have 1: "map fst ?row = joined_names sa sb keys a b" by (rule joined_names_conv)
  have 2: "\<forall>key \<in> set keys. map_of ?row key = map_of a key"
  proof
    fix key assume k: "key \<in> set keys"
    with hk have "contains a key" by (simp add: has_keys_def)
    then obtain v where v: "map_of a key = Some v"
      by (metis contains_def domD dom_map_of_conv_image_fst)
    have "(key, v) \<in> set ?row" using zip_keyvals_mem[OF k v] by simp
    then have "map_of ?row key = Some v" by (rule map_of_is_SomeI[OF dr])
    with v show "map_of ?row key = map_of a key" by simp
  qed
  have 3: "\<forall>(name, v) \<in> set a. name \<notin> set keys \<longrightarrow>
            (contains b name \<longrightarrow> map_of ?row (name @ sa) = Some v)
          \<and> (\<not> contains b name \<longrightarrow> map_of ?row name = Some v)"
  proof (clarify, intro conjI impI)
    fix name v assume nv: "(name, v) \<in> set a" "name \<notin> set keys"
    note r = renamed_mem[OF nv, of b sa]
    { assume c: "contains b name"
      with r have "(name @ sa, v) \<in> set ?row" by simp
      then show "map_of ?row (name @ sa) = Some v" by (rule map_of_is_SomeI[OF dr]) }
    { assume c: "\<not> contains b name"
      with r have "(name, v) \<in> set ?row" by simp
      then show "map_of ?row name = Some v" by (rule map_of_is_SomeI[OF dr]) }
  qed
  have 4: "\<forall>(name, v) \<in> set b. name \<notin> set keys \<longrightarrow>
            (contains a name \<longrightarrow> map_of ?row (name @ sb) = Some v)
          \<and> (\<not> contains a name \<longrightarrow> map_of ?row name = Some v)"
  proof (clarify, intro conjI impI)
    fix name v assume nv: "(name, v) \<in> set b" "name \<notin> set keys"
    note r = renamed_mem[OF nv, of a sb]
    { assume c: "contains a name"
      with r have "(name @ sb, v) \<in> set ?row" by simp
      then show "map_of ?row (name @ sb) = Some v" by (rule map_of_is_SomeI[OF dr]) }
    { assume c: "\<not> contains a name"
      with r have "(name, v) \<in> set ?row" by simp
      then show "map_of ?row name = Some v" by (rule map_of_is_SomeI[OF dr]) }
  qed
  from g 1 2 3 4 show ?thesis by blast
qed

lemma map_Inr_merged:
  assumes "\<forall>a \<in> set rows_a. has_keys keys a"
  shows "map Inr (concat (map (\<lambda>a. map (merged sa sb keys a) (f a)) rows_a))
     = concat (map (\<lambda>a. map (\<lambda>b. get_ans sa sb a b keys) (f a)) rows_a)"
  using assms by (induction rows_a) (auto simp: get_ans_merged)

text \<open>
  Claim C1, as the code has it. Both streams sorted ascending by the key tuple, with
  comparable key values. The inner join emits, for the rows of the left stream in
  their order and for each of them the rows of the right stream with the same key
  value in their order, the row that \<open>get_ans\<close> returns for the pair: the Cartesian
  product of the two groups of every key value that both streams have, and nothing
  else. The outer join emits the rows of the inner join and the rows of either stream
  whose key value the other stream does not have (as a multiset: the outer join
  interleaves them by key value). The row of a pair whose field names do not clash
  (\<open>joined_names\<close> has no name twice) has exactly these names, in this order; each key
  field holds the left row's value; a field outside the key that both rows have is
  there twice, the left row's value under the name with the left suffix and the right
  row's value under the name with the right suffix; a field outside the key that one
  row has is there under its own name with its value.
\<close>

theorem join_cartesian_product:
  assumes A: "sorted_by keys rows_a" and B: "sorted_by keys rows_b"
    and C: "comparable keys rows_a rows_b"
  shows "\<exists>inner outer.
       Join (InnerJoiner sa sb) keys rows_a rows_b = Inr inner
     \<and> map Inr inner
         = concat (map (\<lambda>a. map (\<lambda>b. get_ans sa sb a b keys)
                     (filter (\<lambda>b. keyvals keys b = keyvals keys a) rows_b)) rows_a)
     \<and> Join (OuterJoiner sa sb) keys rows_a rows_b = Inr outer
     \<and> mset outer = mset inner
          + mset (filter (\<lambda>a. keyvals keys a \<notin> keyvals keys ` set rows_b) rows_a)
          + mset (filter (\<lambda>b. keyvals keys b \<notin> keyvals keys ` set rows_a) rows_b)
     \<and> (\<forall>a \<in> set rows_a. \<forall>b \<in> set rows_b.
          distinct (joined_names sa sb keys a b) \<longrightarrow>
            (\<exists>row. get_ans sa sb a b keys = Inr row
               \<and> map fst row = joined_names sa sb keys a b
               \<and> (\<forall>key \<in> set keys. map_of row key = map_of a key)
               \<and> (\<forall>(name, v) \<in> set a. name \<notin> set keys \<longrightarrow>
                     (contains b name \<longrightarrow> map_of row (name @ sa) = Some v)
                   \<and> (\<not> contains b name \<longrightarrow> map_of row name = Some v))
               \<and> (\<forall>(name, v) \<in> set b. name \<notin> set keys \<longrightarrow>
                     (contains a name \<longrightarrow> map_of row (name @ sb) = Some v)
                   \<and> (\<not> contains a name \<longrightarrow> map_of row name = Some v))))"
proof -
  let ?kv = "keyvals keys"
  let ?inner = "concat (map (\<lambda>a. map (merged sa sb keys a)
                 (filter (\<lambda>b. ?kv b = ?kv a) rows_b)) rows_a)"
  from A have ha: "\<forall>r \<in> set rows_a. has_keys keys r" by (simp add: sorted_by_def)
  from B have hb: "\<forall>r \<in> set rows_b. has_keys keys r" by (simp add: sorted_by_def)
  note ga = sorted_by_runs[OF A] and gb = sorted_by_runs[OF B]
  note hk = runs_has_keys[OF ha, of ?kv] and cmp = runs_comparable[OF C]
  have inner: "Join (InnerJoiner sa sb) keys rows_a rows_b = Inr ?inner"
    using Join_loop_inner[OF ga gb hk cmp, of sa sb]
    by (simp only: Join_runs[OF ha hb] concat_runs)
  have pairs: "map Inr ?inner
         = concat (map (\<lambda>a. map (\<lambda>b. get_ans sa sb a b keys)
                     (filter (\<lambda>b. ?kv b = ?kv a) rows_b)) rows_a)"
    by (rule map_Inr_merged[OF ha])
  obtain outer where outer: "Join (OuterJoiner sa sb) keys rows_a rows_b = Inr outer"
    and ms: "mset outer = mset ?inner
            + mset (filter (\<lambda>a. ?kv a \<notin> ?kv ` set rows_b) rows_a)
            + mset (filter (\<lambda>b. ?kv b \<notin> ?kv ` set rows_a) rows_b)"
    using Join_loop_mset[OF ga gb hk cmp, of "OuterJoiner sa sb"]
    by (auto simp: Join_runs[OF ha hb] concat_runs)
  have rule: "\<forall>a \<in> set rows_a. \<forall>b \<in> set rows_b.
          distinct (joined_names sa sb keys a b) \<longrightarrow>
            (\<exists>row. get_ans sa sb a b keys = Inr row
               \<and> map fst row = joined_names sa sb keys a b
               \<and> (\<forall>key \<in> set keys. map_of row key = map_of a key)
               \<and> (\<forall>(name, v) \<in> set a. name \<notin> set keys \<longrightarrow>
                     (contains b name \<longrightarrow> map_of row (name @ sa) = Some v)
                   \<and> (\<not> contains b name \<longrightarrow> map_of row name = Some v))
               \<and> (\<forall>(name, v) \<in> set b. name \<notin> set keys \<longrightarrow>
                     (contains a name \<longrightarrow> map_of row (name @ sb) = Some v)
                   \<and> (\<not> contains a name \<longrightarrow> map_of row name = Some v)))"
    using ha get_ans_fields by blast
  from inner pairs outer ms rule show ?thesis by blast
qed


theorem join_cartesian_product_witness:
  "sorted_by [''k'']
     [[(''k'', VInt 1), (''v'', VStr ''L1''), (''x'', VInt 7)],
      [(''k'', VInt 1), (''v'', VStr ''L2''), (''x'', VInt 8)],
      [(''k'', VInt 2), (''v'', VStr ''L3'')]]
   \<and> sorted_by [''k'']
     [[(''k'', VInt 1), (''v'', VStr ''R1''), (''y'', VStr ''p'')],
      [(''k'', VInt 1), (''v'', VStr ''R2''), (''y'', VStr ''q'')],
      [(''k'', VInt 3), (''v'', VStr ''R3'')]]
   \<and> comparable [''k'']
     [[(''k'', VInt 1), (''v'', VStr ''L1''), (''x'', VInt 7)],
      [(''k'', VInt 1), (''v'', VStr ''L2''), (''x'', VInt 8)],
      [(''k'', VInt 2), (''v'', VStr ''L3'')]]
     [[(''k'', VInt 1), (''v'', VStr ''R1''), (''y'', VStr ''p'')],
      [(''k'', VInt 1), (''v'', VStr ''R2''), (''y'', VStr ''q'')],
      [(''k'', VInt 3), (''v'', VStr ''R3'')]]
   \<and> distinct (joined_names default_suffix_a default_suffix_b [''k'']
        [(''k'', VInt 1), (''v'', VStr ''L1''), (''x'', VInt 7)]
        [(''k'', VInt 1), (''v'', VStr ''R1''), (''y'', VStr ''p'')])
   \<and> Join (InnerJoiner default_suffix_a default_suffix_b) [''k'']
     [[(''k'', VInt 1), (''v'', VStr ''L1''), (''x'', VInt 7)],
      [(''k'', VInt 1), (''v'', VStr ''L2''), (''x'', VInt 8)],
      [(''k'', VInt 2), (''v'', VStr ''L3'')]]
     [[(''k'', VInt 1), (''v'', VStr ''R1''), (''y'', VStr ''p'')],
      [(''k'', VInt 1), (''v'', VStr ''R2''), (''y'', VStr ''q'')],
      [(''k'', VInt 3), (''v'', VStr ''R3'')]]
     = Inr [[(''k'', VInt 1), (''v_1'', VStr ''L1''), (''x'', VInt 7), (''v_2'', VStr ''R1''), (''y'', VStr ''p'')],
            [(''k'', VInt 1), (''v_1'', VStr ''L1''), (''x'', VInt 7), (''v_2'', VStr ''R2''), (''y'', VStr ''q'')],
            [(''k'', VInt 1), (''v_1'', VStr ''L2''), (''x'', VInt 8), (''v_2'', VStr ''R1''), (''y'', VStr ''p'')],
            [(''k'', VInt 1), (''v_1'', VStr ''L2''), (''x'', VInt 8), (''v_2'', VStr ''R2''), (''y'', VStr ''q'')]]
   \<and> Join (OuterJoiner default_suffix_a default_suffix_b) [''k'']
     [[(''k'', VInt 1), (''v'', VStr ''L1''), (''x'', VInt 7)],
      [(''k'', VInt 1), (''v'', VStr ''L2''), (''x'', VInt 8)],
      [(''k'', VInt 2), (''v'', VStr ''L3'')]]
     [[(''k'', VInt 1), (''v'', VStr ''R1''), (''y'', VStr ''p'')],
      [(''k'', VInt 1), (''v'', VStr ''R2''), (''y'', VStr ''q'')],
      [(''k'', VInt 3), (''v'', VStr ''R3'')]]
     = Inr [[(''k'', VInt 1), (''v_1'', VStr ''L1''), (''x'', VInt 7), (''v_2'', VStr ''R1''), (''y'', VStr ''p'')],
            [(''k'', VInt 1), (''v_1'', VStr ''L1''), (''x'', VInt 7), (''v_2'', VStr ''R2''), (''y'', VStr ''q'')],
            [(''k'', VInt 1), (''v_1'', VStr ''L2''), (''x'', VInt 8), (''v_2'', VStr ''R1''), (''y'', VStr ''p'')],
            [(''k'', VInt 1), (''v_1'', VStr ''L2''), (''x'', VInt 8), (''v_2'', VStr ''R2''), (''y'', VStr ''q'')],
            [(''k'', VInt 2), (''v'', VStr ''L3'')],
            [(''k'', VInt 3), (''v'', VStr ''R3'')]]"
proof -
  let ?a1 = "[(''k'', VInt 1), (''v'', VStr ''L1''), (''x'', VInt 7)]"
  let ?a2 = "[(''k'', VInt 1), (''v'', VStr ''L2''), (''x'', VInt 8)]"
  let ?a3 = "[(''k'', VInt 2), (''v'', VStr ''L3'')]"
  let ?b1 = "[(''k'', VInt 1), (''v'', VStr ''R1''), (''y'', VStr ''p'')]"
  let ?b2 = "[(''k'', VInt 1), (''v'', VStr ''R2''), (''y'', VStr ''q'')]"
  let ?b3 = "[(''k'', VInt 3), (''v'', VStr ''R3'')]"
  let ?A = "[?a1, ?a2, ?a3]"
  let ?B = "[?b1, ?b2, ?b3]"
  let ?r11 = "[(''k'', VInt 1), (''v_1'', VStr ''L1''), (''x'', VInt 7), (''v_2'', VStr ''R1''), (''y'', VStr ''p'')]"
  let ?r12 = "[(''k'', VInt 1), (''v_1'', VStr ''L1''), (''x'', VInt 7), (''v_2'', VStr ''R2''), (''y'', VStr ''q'')]"
  let ?r21 = "[(''k'', VInt 1), (''v_1'', VStr ''L2''), (''x'', VInt 8), (''v_2'', VStr ''R1''), (''y'', VStr ''p'')]"
  let ?r22 = "[(''k'', VInt 1), (''v_1'', VStr ''L2''), (''x'', VInt 8), (''v_2'', VStr ''R2''), (''y'', VStr ''q'')]"
  note ev = Join_def getitem_def pairs_a_major_def pairs_b_major_def get_ans_def dict_update_def
    dict_of_def renamed_def setitem_def contains_def unmatched_a_def unmatched_b_def
    default_suffix_a_def default_suffix_b_def
  have a: "sorted_by [''k''] ?A"
    by (simp add: sorted_by_def has_keys_def contains_def keyvals_def key_le_iff)
  have b: "sorted_by [''k''] ?B"
    by (simp add: sorted_by_def has_keys_def contains_def keyvals_def key_le_iff)
  have c: "comparable [''k''] ?A ?B"
    by (auto simp: comparable_def keyvals_def keys_eq_def)
  have d: "distinct (joined_names default_suffix_a default_suffix_b [''k''] ?a1 ?b1)"
    by (simp add: joined_names_def contains_def default_suffix_a_def default_suffix_b_def)
  from join_cartesian_product[OF a b c, of default_suffix_a default_suffix_b]
  obtain inner where i: "Join (InnerJoiner default_suffix_a default_suffix_b) [''k''] ?A ?B = Inr inner"
    and m: "map Inr inner
         = concat (map (\<lambda>a. map (\<lambda>b. get_ans default_suffix_a default_suffix_b a b [''k''])
                     (filter (\<lambda>b. keyvals [''k''] b = keyvals [''k''] a) ?B)) ?A)"
    by blast
  have E: "concat (map (\<lambda>a. map (\<lambda>b. get_ans default_suffix_a default_suffix_b a b [''k''])
                     (filter (\<lambda>b. keyvals [''k''] b = keyvals [''k''] a) ?B)) ?A)
        = map Inr [?r11, ?r12, ?r21, ?r22]"
    by (simp add: keyvals_def ev)
  have "(map Inr inner :: (error + row) list) = map Inr [?r11, ?r12, ?r21, ?r22]"
    by (rule trans[OF m E])
  then have "inner = [?r11, ?r12, ?r21, ?r22]"
    by (simp only: inj_map_eq_map[OF inj_Inr])
  with i have I: "Join (InnerJoiner default_suffix_a default_suffix_b) [''k''] ?A ?B
      = Inr [?r11, ?r12, ?r21, ?r22]" by simp
  have O: "Join (OuterJoiner default_suffix_a default_suffix_b) [''k''] ?A ?B
      = Inr [?r11, ?r12, ?r21, ?r22, ?a3, ?b3]"
    by (simp add: ev)
  from a b c d I O show ?thesis by blast
qed

text \<open>
  Claim C1 as stated fails where names clash: with the default suffixes, the left row
  \<^verbatim>\<open>{k: 1, v: "L", v_1: "X"}\<close> and the right row \<^verbatim>\<open>{k: 1, v: "R"}\<close> have \<open>v\<close> on both
  sides, and the joined row holds no left copy of \<open>v\<close>: the name \<open>v_1\<close> carries the
  value of the left row's own field \<open>v_1\<close>.
\<close>

theorem join_collision_counterexample:
  "Join (InnerJoiner ''_1'' ''_2'') [''k'']
     [[(''k'', VInt 1), (''v'', VStr ''L''), (''v_1'', VStr ''X'')]]
     [[(''k'', VInt 1), (''v'', VStr ''R'')]]
   = Inr [[(''k'', VInt 1), (''v_1'', VStr ''X''), (''v_2'', VStr ''R'')]]"
  by (simp add: Join_def getitem_def pairs_a_major_def get_ans_def dict_update_def dict_of_def
      renamed_def setitem_def contains_def)

text \<open>
  Key values that \<^verbatim>\<open><\<close> cannot compare end the join with \<^verbatim>\<open>TypeError\<close>.
\<close>

lemma Join_incomparable_keys:
  "Join (InnerJoiner ''_1'' ''_2'') [''k''] [[(''k'', VInt 1)]] [[(''k'', VStr ''x'')]]
   = Inl TypeError"
  by (simp add: Join_def getitem_def)

declare k_way_merge.simps [simp del]
declare chunks.simps [simp del]

lemma queue_mem:
  "(k, i) \<in> set (queue key rs) \<longleftrightarrow> i < length rs \<and> rs ! i \<noteq> [] \<and> k = key (hd (rs ! i))"
  by (auto simp: queue_def in_set_enumerate_eq)

lemma queue_Min:
  assumes "queue key rs \<noteq> []" "Min (set (queue key rs)) = (k, i)"
  shows "i < length rs \<and> rs ! i \<noteq> [] \<and> k = key (hd (rs ! i))"
proof -
  have "Min (set (queue key rs)) \<in> set (queue key rs)"
    using assms(1) by (intro Min_in) auto
  then show ?thesis using assms(2) by (simp add: queue_mem)
qed


lemma concat_chunks: "concat (chunks budget xs) = xs"
  by (induction budget xs rule: chunks.induct) (subst chunks.simps, simp)

lemma k_way_merge_Nil: "queue key rs = [] \<Longrightarrow> k_way_merge key rs = []"
  by (subst k_way_merge.simps) simp

lemma queue_Nil_iff: "queue key rs = [] \<longleftrightarrow> (\<forall>r \<in> set rs. r = [])"
proof
  assume "queue key rs = []"
  then have "\<forall>i < length rs. rs ! i = []"
    using queue_mem[of _ _ key rs] by (metis empty_iff list.set(1))
  then show "\<forall>r \<in> set rs. r = []" by (metis in_set_conv_nth)
next
  assume "\<forall>r \<in> set rs. r = []"
  then have "set (queue key rs) = {}"
    using queue_mem[of _ _ key rs] by (metis nth_mem subrelI subset_empty)
  then show "queue key rs = []" by simp
qed

text \<open>One step of the merge: the run popped, split off the list of runs.\<close>

lemma k_way_merge_step:
  assumes "queue key rs \<noteq> []"
  obtains i x t where "i < length rs" "rs ! i = x # t"
    "Min (set (queue key rs)) = (key x, i)"
    "k_way_merge key rs = x # k_way_merge key (rs[i := t])"
    "rs = take i rs @ (x # t) # drop (Suc i) rs"
    "rs[i := t] = take i rs @ t # drop (Suc i) rs"
    "\<forall>j < length rs. rs ! j \<noteq> [] \<longrightarrow> (key x, i) \<le> (key (hd (rs ! j)), j)"
proof -
  obtain k i where m: "Min (set (queue key rs)) = (k, i)" by (cases "Min (set (queue key rs))")
  from queue_Min[OF assms m] have i: "i < length rs" and ne: "rs ! i \<noteq> []"
    and k: "k = key (hd (rs ! i))" by auto
  from ne obtain x t where xt: "rs ! i = x # t" by (cases "rs ! i") auto
  have 1: "k_way_merge key rs = x # k_way_merge key (rs[i := t])"
    using assms m xt by (subst k_way_merge.simps) simp
  have 2: "rs = take i rs @ (x # t) # drop (Suc i) rs"
    using id_take_nth_drop[OF i] xt by simp
  have 3: "rs[i := t] = take i rs @ t # drop (Suc i) rs"
    using i by (rule upd_conv_take_nth_drop)
  have 4: "(key x, i) \<le> (key (hd (rs ! j)), j)" if "j < length rs" "rs ! j \<noteq> []" for j
  proof -
    have "(key (hd (rs ! j)), j) \<in> set (queue key rs)" using that by (simp add: queue_mem)
    then have "Min (set (queue key rs)) \<le> (key (hd (rs ! j)), j)" by (intro Min_le) auto
    then show ?thesis using m k xt by simp
  qed
  show thesis using that[OF i xt _ 1 2 3] 4 m k xt by simp
qed

lemma mset_k_way_merge: "mset (k_way_merge key rs) = mset (concat rs)"
proof (induction key rs rule: k_way_merge.induct)
  case (1 key rs)
  show ?case
  proof (cases "queue key rs = []")
    case True
    then show ?thesis by (simp add: k_way_merge_Nil queue_Nil_iff)
  next
    case False
    then obtain i x t where s: "rs ! i = x # t"
      "Min (set (queue key rs)) = (key x, i)"
      "k_way_merge key rs = x # k_way_merge key (rs[i := t])"
      "rs = take i rs @ (x # t) # drop (Suc i) rs"
      "rs[i := t] = take i rs @ t # drop (Suc i) rs"
      by (rule k_way_merge_step)
    have IH: "mset (k_way_merge key (rs[i := t])) = mset (concat (rs[i := t]))"
      using "1.IH"[OF False s(2)[symmetric]] s(1) by simp
    have "mset (concat rs) = {#x#} + mset (concat (rs[i := t]))"
      by (subst s(4), subst s(5)) simp
    with IH s(3) show ?thesis by simp
  qed
qed

lemma set_k_way_merge: "set (k_way_merge key rs) = set (concat rs)"
  using mset_k_way_merge[of key rs] by (metis set_mset_mset)

lemma sorted_k_way_merge:
  assumes "\<forall>r \<in> set rs. sorted (map key r)"
  shows "sorted (map key (k_way_merge key rs))"
  using assms
proof (induction key rs rule: k_way_merge.induct)
  case (1 key rs)
  show ?case
  proof (cases "queue key rs = []")
    case True
    then show ?thesis by (simp add: k_way_merge_Nil)
  next
    case False
    then obtain i x t where s: "i < length rs" "rs ! i = x # t"
      "Min (set (queue key rs)) = (key x, i)"
      "k_way_merge key rs = x # k_way_merge key (rs[i := t])"
      "rs = take i rs @ (x # t) # drop (Suc i) rs"
      "rs[i := t] = take i rs @ t # drop (Suc i) rs"
      and least: "\<forall>j < length rs. rs ! j \<noteq> [] \<longrightarrow> (key x, i) \<le> (key (hd (rs ! j)), j)"
      by (rule k_way_merge_step)
    have st: "sorted (map key t)" using "1.prems" s(1,2) by (metis nth_mem sorted_simps(2) list.simps(9))
    have all': "\<forall>r \<in> set (rs[i := t]). sorted (map key r)"
      using "1.prems" st set_update_subset_insert[of rs i t] by auto
    have IH: "sorted (map key (k_way_merge key (rs[i := t])))"
      using "1.IH"[OF False s(3)[symmetric]] s(2) all' by simp
    have "\<forall>y \<in> set (concat rs). key x \<le> key y"
    proof
      fix y assume "y \<in> set (concat rs)"
      then obtain r where r: "r \<in> set rs" "y \<in> set r" by auto
      then obtain j where j: "j < length rs" "y \<in> set (rs ! j)"
        by (metis in_set_conv_nth)
      then have ne: "rs ! j \<noteq> []" by auto
      have "sorted (map key (rs ! j))" using "1.prems" j(1) by simp
      then have "key (hd (rs ! j)) \<le> key y"
        using j(2) ne by (cases "rs ! j") auto
      moreover have "key x \<le> key (hd (rs ! j))"
        using least j(1) ne by (auto simp: less_eq_prod_def)
      ultimately show "key x \<le> key y" by simp
    qed
    moreover have "set (concat (rs[i := t])) \<subseteq> set (concat rs)"
    proof -
      have "set (concat (take i rs @ t # drop (Suc i) rs))
          \<subseteq> set (concat (take i rs @ (x # t) # drop (Suc i) rs))" by auto
      then show ?thesis using s(5) s(6) by metis
    qed
    ultimately have "\<forall>y \<in> set (k_way_merge key (rs[i := t])). key x \<le> key y"
      by (auto simp: set_k_way_merge)
    with IH s(4) show ?thesis by simp
  qed
qed

lemma filter_k_way_merge:
  assumes "\<forall>r \<in> set rs. sorted (map key r)"
  shows "filter (\<lambda>y. key y = k) (k_way_merge key rs)
    = concat (map (filter (\<lambda>y. key y = k)) rs)"
  using assms
proof (induction key rs rule: k_way_merge.induct)
  case (1 key rs)
  show ?case
  proof (cases "queue key rs = []")
    case True
    then have "concat (map (filter (\<lambda>y. key y = k)) rs) = []"
      by (auto simp: queue_Nil_iff)
    with True show ?thesis by (simp add: k_way_merge_Nil)
  next
    case False
    then obtain i x t where s: "i < length rs" "rs ! i = x # t"
      "Min (set (queue key rs)) = (key x, i)"
      "k_way_merge key rs = x # k_way_merge key (rs[i := t])"
      "rs = take i rs @ (x # t) # drop (Suc i) rs"
      "rs[i := t] = take i rs @ t # drop (Suc i) rs"
      and least: "\<forall>j < length rs. rs ! j \<noteq> [] \<longrightarrow> (key x, i) \<le> (key (hd (rs ! j)), j)"
      by (rule k_way_merge_step)
    let ?F = "filter (\<lambda>y. key y = k)"
    have st: "sorted (map key t)" using "1.prems" s(1,2) by (metis nth_mem sorted_simps(2) list.simps(9))
    have all': "\<forall>r \<in> set (rs[i := t]). sorted (map key r)"
      using "1.prems" st set_update_subset_insert[of rs i t] by auto
    have IH: "?F (k_way_merge key (rs[i := t])) = concat (map ?F (rs[i := t]))"
      using "1.IH"[OF False s(3)[symmetric]] s(2) all' by simp
    have split: "concat (map ?F rs)
        = concat (map ?F (take i rs)) @ ?F (x # t) @ concat (map ?F (drop (Suc i) rs))"
      by (subst s(5)) simp
    have split': "concat (map ?F (rs[i := t]))
        = concat (map ?F (take i rs)) @ ?F t @ concat (map ?F (drop (Suc i) rs))"
      by (subst s(6)) simp
    show ?thesis
    proof (cases "key x = k")
      case False
      with IH s(4) split split' show ?thesis by simp
    next
      case True
      have "concat (map ?F (take i rs)) = []"
      proof -
        have "\<forall>r \<in> set (take i rs). ?F r = []"
        proof
          fix r assume "r \<in> set (take i rs)"
          then obtain j where j: "j < i" "j < length rs" "r = rs ! j"
            using s(1) by (auto simp: in_set_conv_nth)
          show "?F r = []"
          proof (cases "r = []")
            case True
            then show ?thesis by simp
          next
            case False
            then have "(key x, i) \<le> (key (hd r), j)" using least j by blast
            then have lt: "key x < key (hd r)" using j(1) by (auto simp: less_eq_prod_def)
            have "sorted (map key r)" using "1.prems" j by simp
            then have "\<forall>y \<in> set r. key (hd r) \<le> key y" using False by (cases r) auto
            then have "\<forall>y \<in> set r. key y \<noteq> k" using lt True by auto
            then show ?thesis by (simp add: filter_empty_conv)
          qed
        qed
        then show ?thesis by simp
      qed
      with True IH s(4) split split' show ?thesis by simp
    qed
  qed
qed

lemma external_sort_stable_sort:
  "mset (external_sort key budget xs) = mset xs
   \<and> sorted (map key (external_sort key budget xs))
   \<and> (\<forall>k. filter (\<lambda>y. key y = k) (external_sort key budget xs) = filter (\<lambda>y. key y = k) xs)"
proof (cases "length xs \<le> max 1 budget")
  case True
  then show ?thesis by (simp add: external_sort_def sort_key_stable)
next
  case False
  let ?rs = "run_generation key budget xs"
  have sorted_runs: "\<forall>r \<in> set ?rs. sorted (map key r)"
    by (auto simp: run_generation_def)
  have "mset (concat ?rs) = mset xs"
  proof -
    have "mset (concat (map (sort_key key) ys)) = mset (concat ys)" for ys :: "'a list list"
      by (induction ys) auto
    then show ?thesis by (simp add: run_generation_def concat_chunks)
  qed
  moreover have "concat (map (filter (\<lambda>y. key y = k)) ?rs) = filter (\<lambda>y. key y = k) xs" for k
  proof -
    have "concat (map (filter (\<lambda>y. key y = k)) (map (sort_key key) ys))
        = filter (\<lambda>y. key y = k) (concat ys)" for ys :: "'a list list"
      by (induction ys) (auto simp: sort_key_stable)
    then show ?thesis by (simp add: run_generation_def concat_chunks)
  qed
  ultimately show ?thesis
    using False sorted_runs
    by (simp add: external_sort_def mset_k_way_merge sorted_k_way_merge filter_k_way_merge)
qed

corollary external_sort_eq_sort_key: "external_sort key budget xs = sort_key key xs"
proof (rule properties_for_sort_key[symmetric])
  show "mset (external_sort key budget xs) = mset xs"
    using external_sort_stable_sort by blast
  show "sorted (map key (external_sort key budget xs))"
    using external_sort_stable_sort by blast
  show "\<And>k. k \<in> set (external_sort key budget xs) \<Longrightarrow>
      filter (\<lambda>x. key k = key x) (external_sort key budget xs) = filter (\<lambda>x. key k = key x) xs"
  proof -
    fix k
    have c: "filter (\<lambda>x. key k = key x) ys = filter (\<lambda>y. key y = key k) ys" for ys :: "'a list"
      by (rule filter_cong) auto
    show "filter (\<lambda>x. key k = key x) (external_sort key budget xs) = filter (\<lambda>x. key k = key x) xs"
      unfolding c using external_sort_stable_sort[of key budget xs] by blast
  qed
qed

lemma val_rank_inj: "val_rank a = val_rank b \<longleftrightarrow> a = b"
  by (cases a rule: val_rank.cases; cases b rule: val_rank.cases) auto

lemma sort_key_of_eq: "sort_key_of keys r = sort_key_of keys s \<longleftrightarrow> keyvals keys r = keyvals keys s"
proof -
  have "inj val_rank" by (rule injI) (simp add: val_rank_inj)
  then show ?thesis by (simp add: sort_key_of_def inj_map_eq_map)
qed

lemma val_lt_rank: "val_lt a b = Some True \<Longrightarrow> val_rank a < val_rank b"
  by (cases a rule: val_rank.cases; cases b rule: val_rank.cases) auto

lemma key_lt_rank: "key_lt a b = Some True \<Longrightarrow> map val_rank a < map val_rank b"
  by (induction a b rule: key_lt.induct) (auto simp: val_lt_rank dest: py_eq_eq split: if_splits)

lemma sorted_rank_sorted_by:
  assumes h: "\<forall>r \<in> set rows. has_keys keys r"
    and c: "comparable keys rows rows"
    and s: "sorted (map (sort_key_of keys) rows)"
  shows "sorted_by keys rows"
proof -
  have "key_le (keyvals keys r) (keyvals keys t)"
    if "r \<in> set rows" "t \<in> set rows" "sort_key_of keys r \<le> sort_key_of keys t" for r t
  proof (rule ccontr)
    assume n: "\<not> key_le (keyvals keys r) (keyvals keys t)"
    from c that(1,2) have "keys_eq (keyvals keys r) (keyvals keys t)
        \<or> key_lt (keyvals keys r) (keyvals keys t) = Some True
        \<or> key_lt (keyvals keys t) (keyvals keys r) = Some True"
      by (simp add: comparable_def)
    with n have "key_lt (keyvals keys t) (keyvals keys r) = Some True"
      by (auto simp: key_le_def)
    then have "sort_key_of keys t < sort_key_of keys r"
      by (simp add: sort_key_of_def key_lt_rank)
    with that(3) show False by simp
  qed
  moreover have "sorted_wrt (\<lambda>r t. sort_key_of keys r \<le> sort_key_of keys t) rows"
    using s by (simp add: sorted_map)
  ultimately have "sorted_wrt (\<lambda>r t. key_le (keyvals keys r) (keyvals keys t)) rows"
    by (metis (mono_tags, lifting) sorted_wrt_mono_rel)
  then have "successively (\<lambda>r t. key_le (keyvals keys r) (keyvals keys t)) rows"
    by (rule successively_if_sorted_wrt)
  with h show ?thesis by (simp add: sorted_by_def)
qed

text \<open>
  Claim C2. For every budget, key tuple and input stream, the output of the sort is a
  permutation of the input (equal as multisets), its key values are non-decreasing,
  and the rows of any one key value come out in the order in which they came in. The
  order is the model's linear order of key values; when every row has the key fields
  and the key values are comparable by Python's \<^verbatim>\<open><\<close>, the output is sorted ascending
  in Python's sense (\<open>sorted_by\<close>), which is what \<open>Reduce\<close> and \<open>Join\<close> assume.
\<close>

theorem ExternalSort_stable_permutation:
  "mset (ExternalSort budget keys rows) = mset rows
   \<and> sorted (map (sort_key_of keys) (ExternalSort budget keys rows))
   \<and> (\<forall>k. filter (\<lambda>r. keyvals keys r = k) (ExternalSort budget keys rows)
          = filter (\<lambda>r. keyvals keys r = k) rows)
   \<and> ((\<forall>r \<in> set rows. has_keys keys r) \<and> comparable keys rows rows
        \<longrightarrow> sorted_by keys (ExternalSort budget keys rows))"
proof -
  let ?out = "ExternalSort budget keys rows"
  note p = external_sort_stable_sort[of "sort_key_of keys" budget rows]
  have m: "mset ?out = mset rows" using p by (simp add: ExternalSort_def)
  have s: "sorted (map (sort_key_of keys) ?out)" using p by (simp add: ExternalSort_def)
  have st: "filter (\<lambda>r. keyvals keys r = k) ?out = filter (\<lambda>r. keyvals keys r = k) rows" for k
  proof (cases "\<exists>r. keyvals keys r = k")
    case True
    then obtain r0 where r0: "keyvals keys r0 = k" by blast
    have "(\<lambda>r. keyvals keys r = k) = (\<lambda>r. sort_key_of keys r = sort_key_of keys r0)"
      using r0 by (auto simp: sort_key_of_eq)
    then show ?thesis using p by (simp add: ExternalSort_def)
  next
    case False
    then show ?thesis by simp
  qed
  have set_eq: "set ?out = set rows" using m by (metis set_mset_mset)
  have "sorted_by keys ?out" if "\<forall>r \<in> set rows. has_keys keys r" "comparable keys rows rows"
    by (rule sorted_rank_sorted_by) (use that s set_eq in \<open>auto simp: comparable_def\<close>)
  with m s st show ?thesis by blast
qed

theorem ExternalSort_stable_permutation_witness:
  "comparable [''x''] [[(''x'', VInt 3), (''n'', VStr ''a'')], [(''x'', VInt 1)],
                  [(''x'', VInt 3), (''n'', VStr ''b'')], [(''x'', VInt 2)]]
                 [[(''x'', VInt 3), (''n'', VStr ''a'')], [(''x'', VInt 1)],
                  [(''x'', VInt 3), (''n'', VStr ''b'')], [(''x'', VInt 2)]]
   \<and> sorted_by [''x''] (ExternalSort 2 [''x''] [[(''x'', VInt 3), (''n'', VStr ''a'')], [(''x'', VInt 1)],
                  [(''x'', VInt 3), (''n'', VStr ''b'')], [(''x'', VInt 2)]])
   \<and> mset (ExternalSort 2 [''x''] [[(''x'', VInt 3), (''n'', VStr ''a'')], [(''x'', VInt 1)],
                  [(''x'', VInt 3), (''n'', VStr ''b'')], [(''x'', VInt 2)]])
      = mset [[(''x'', VInt 3), (''n'', VStr ''a'')], [(''x'', VInt 1)],
                  [(''x'', VInt 3), (''n'', VStr ''b'')], [(''x'', VInt 2)]]"
proof -
  let ?rows = "[[(''x'', VInt 3), (''n'', VStr ''a'')], [(''x'', VInt 1)],
                  [(''x'', VInt 3), (''n'', VStr ''b'')], [(''x'', VInt 2)]]"
  have h: "\<forall>r \<in> set ?rows. has_keys [''x''] r"
    by (simp add: has_keys_def contains_def)
  have c: "comparable [''x''] ?rows ?rows"
    by (auto simp: comparable_def keyvals_def keys_eq_def)
  from ExternalSort_stable_permutation[of 2 "[''x'']" ?rows] h c
  show ?thesis by blast
qed

lemma ExternalSort_example:
  "ExternalSort 2 [''x''] [[(''x'', VInt 3), (''n'', VStr ''a'')], [(''x'', VInt 1)],
                  [(''x'', VInt 3), (''n'', VStr ''b'')], [(''x'', VInt 2)]]
      = [[(''x'', VInt 1)], [(''x'', VInt 2)],
         [(''x'', VInt 3), (''n'', VStr ''a'')], [(''x'', VInt 3), (''n'', VStr ''b'')]]"
  by code_simp

lemma call_first_source_unbound:
  "first_source op = ReadIterFactory name \<Longrightarrow> kwargs name = None
    \<Longrightarrow> call budget files op kwargs = Inl (KeyError name)"
  by (induction op) (auto simp: ReadIterFactory_call_def)

lemma call_unbound_fails:
  "name \<in> iter_sources op \<Longrightarrow> kwargs name = None \<Longrightarrow> \<exists>e. call budget files op kwargs = Inl e"
  by (induction op) (auto simp: ReadIterFactory_call_def split: sum.splits)

text \<open>
  Claim C4, as the code has it. A graph with a named iterator source whose name the
  keyword arguments of \<^verbatim>\<open>run\<close> do not bind: consuming the output raises. The
  exception for the missing binding is the \<^verbatim>\<open>KeyError\<close> of the dict lookup
  \<^verbatim>\<open>kwargs[self.name]\<close>, and it is the exception raised whenever the unbound source
  is the one that the first pull reaches (in a graph without join, its only source).
\<close>

theorem run_unbound_source:
  assumes "name \<in> iter_sources (h ! self)" and "kwargs name = None"
  shows "(\<exists>e. run budget files h self kwargs = Inl e)
     \<and> (first_source (h ! self) = ReadIterFactory name
          \<longrightarrow> run budget files h self kwargs = Inl (KeyError name))"
  using assms call_unbound_fails[of name "h ! self" kwargs budget files]
    call_first_source_unbound[of "h ! self" name kwargs budget files]
  by (simp add: run_def)

theorem run_unbound_source_witness:
  "''docs'' \<in> iter_sources
       (snd (Graph_map (snd (graph_from_iter [] ''docs'')) 0 (Inverse ''a'')) ! 1)
   \<and> [''other'' \<mapsto> [[(''a'', VInt 1)]]] ''docs'' = None
   \<and> run 100 Map.empty (snd (Graph_map (snd (graph_from_iter [] ''docs'')) 0 (Inverse ''a''))) 1
        [''other'' \<mapsto> [[(''a'', VInt 1)]]]
      = Inl (KeyError ''docs'')"
proof -
  let ?h = "snd (Graph_map (snd (graph_from_iter [] ''docs'')) 0 (Inverse ''a''))"
  have h: "?h = [ReadIterFactory ''docs'',
                 AddOperation (Map_stage (Inverse ''a'')) (ReadIterFactory ''docs'')]"
    by (simp add: Graph_map_def graph_from_iter_def new_graph_def)
  have s: "''docs'' \<in> iter_sources (?h ! 1)" by (simp add: h)
  have k: "[''other'' \<mapsto> [[(''a'', VInt 1)]]] ''docs'' = None" by simp
  have f: "first_source (?h ! 1) = ReadIterFactory ''docs''" by (simp add: h)
  from run_unbound_source[of "''docs''" ?h 1 "[''other'' \<mapsto> [[(''a'', VInt 1)]]]" 100 Map.empty] s k f
  have "run 100 Map.empty ?h 1 [''other'' \<mapsto> [[(''a'', VInt 1)]]] = Inl (KeyError ''docs'')"
    by blast
  with s k show ?thesis by blast
qed

text \<open>
  Claim C4 as stated fails on the error kind: the graph \<^verbatim>\<open>graph_from_iter('docs')\<close>
  run with no binding at all raises \<^verbatim>\<open>KeyError('docs')\<close>, not \<open>ConfigError\<close>.
\<close>

theorem run_unbound_source_counterexample:
  "run 100 Map.empty (snd (graph_from_iter [] ''docs'')) (fst (graph_from_iter [] ''docs''))
       Map.empty = Inl (KeyError ''docs'')
   \<and> run 100 Map.empty (snd (graph_from_iter [] ''docs'')) (fst (graph_from_iter [] ''docs''))
       Map.empty \<noteq> Inl ConfigError"
  by (simp add: run_def graph_from_iter_def new_graph_def ReadIterFactory_call_def)


lemma yields_Inverse_inplace: "yields (Inverse_inplace col) = Inverse col"
  by (rule ext) (simp add: yields_def Inverse_inplace_def Inverse_def split: sum.splits)

lemma Map_shared_yields:
  "Map_shared m store = Inr (store', out) \<Longrightarrow> Map (yields m) store = Inr out"
  by (induction store arbitrary: store' out) (auto simp: yields_def split: sum.splits prod.splits)

lemma Map_shared_run:
  assumes "Map_shared m store = Inr (store', out)"
  shows "run budget files (snd (Graph_map (snd (graph_from_iter [] name)) 0 (yields m))) 1
           [name \<mapsto> store] = Inr out"
  using Map_shared_yields[OF assms]
  by (simp add: run_def Graph_map_def graph_from_iter_def new_graph_def ReadIterFactory_call_def)







lemma le_of_refl: "py_order lt \<Longrightarrow> comparable_on lt S \<Longrightarrow> a \<in> S \<Longrightarrow> le_of lt a a"
  unfolding py_order_def comparable_on_def le_of_def by (metis (full_types) option.exhaust)

lemma le_of_trans:
  assumes "py_order lt" "comparable_on lt S" "a \<in> S" "b \<in> S" "c \<in> S"
    and "le_of lt a b" "le_of lt b c"
  shows "le_of lt a c"
proof -
  from assms(1) have irr: "\<And>a. lt a a \<noteq> Some True"
    and asym: "\<And>a b. lt a b = Some True \<Longrightarrow> lt b a = Some False"
    and tot: "\<And>a b. lt a b = Some False \<Longrightarrow> a \<noteq> b \<Longrightarrow> lt b a = Some True"
    and tr: "\<And>a b c. lt a b = Some True \<Longrightarrow> lt b c = Some True \<Longrightarrow> lt a c = Some True"
    unfolding py_order_def by blast+
  from assms(6) have ab: "a = b \<or> lt a b = Some True" using tot by (auto simp: le_of_def)
  from assms(7) have bc: "b = c \<or> lt b c = Some True" using tot by (auto simp: le_of_def)
  from ab bc have "a = c \<or> lt a c = Some True" using tr by blast
  moreover have "lt c a \<noteq> None" using assms(2,3,5) by (auto simp: comparable_on_def)
  ultimately show ?thesis using irr asym by (auto simp: le_of_def)
qed

lemma lt_le_of: "py_order lt \<Longrightarrow> lt a b = Some True \<Longrightarrow> le_of lt a b"
  unfolding py_order_def le_of_def by blast

lemma not_lt_le_of: "lt a b = Some False \<Longrightarrow> le_of lt b a"
  by (simp add: le_of_def)

lemma parent_less: "0 < i \<Longrightarrow> (i - 1) div 2 < (i::nat)"
  by arith

lemma mset_update_swap:
  assumes "i < length h" "j < length h"
  shows "mset (h[i := h ! j, j := x]) = mset (h[i := x])"
proof (cases "i = j")
  case True
  then show ?thesis by simp
next
  case False
  have "mset (h[i := h ! j, j := x]) = add_mset x (mset (h[i := h ! j]) - {#h[i := h ! j] ! j#})"
    using assms by (simp add: mset_update)
  also have "\<dots> = add_mset x (add_mset (h ! j) (mset h - {#h ! i#}) - {#h ! j#})"
    using assms False by (simp add: mset_update)
  also have "\<dots> = add_mset x (mset h - {#h ! i#})" by simp
  also have "\<dots> = mset (h[i := x])" using assms by (simp add: mset_update)
  finally show ?thesis .
qed

lemma siftdown_correct:
  assumes "py_order lt" "comparable_on lt S" "set heap \<subseteq> S" "newitem \<in> S"
    and "pos < length heap" "hole_inv lt heap pos" "below_children lt heap pos newitem"
  shows "\<exists>h'. siftdown lt heap 0 newitem pos = Inr h' \<and> is_heap lt h'
           \<and> mset h' = mset (heap[pos := newitem])"
  using assms
proof (induction lt heap "0::nat" newitem pos rule: siftdown.induct)
  case (1 lt heap newitem pos)
  note po = "1.prems"(1) and tot = "1.prems"(2) and sub = "1.prems"(3) and nin = "1.prems"(4)
    and len = "1.prems"(5) and hole = "1.prems"(6) and below = "1.prems"(7)
  let ?pp = "(pos - 1) div 2"
  have fin: "is_heap lt (heap[pos := newitem])" if "pos = 0 \<or> le_of lt (heap ! ?pp) newitem"
    unfolding is_heap_def
  proof (intro allI impI)
    fix i assume i: "0 < i \<and> i < length (heap[pos := newitem])"
    let ?h = "heap[pos := newitem]"
    let ?p = "(i - 1) div 2"
    have pl: "?p < i" using i by arith
    show "le_of lt (?h ! ?p) (?h ! i)"
    proof (cases "i = pos")
      case True
      then have "?p \<noteq> pos" using pl by simp
      with True that i len show ?thesis by auto
    next
      case False
      show ?thesis
      proof (cases "?p = pos")
        case True
        then show ?thesis using below i False len by (auto simp: below_children_def)
      next
        case F2: False
        then show ?thesis using hole i False by (auto simp: hole_inv_def)
      qed
    qed
  qed
  show ?case
  proof (cases "0 < pos")
    case False
    then have "siftdown lt heap 0 newitem pos = Inr (heap[pos := newitem])" by simp
    with fin False show ?thesis by auto
  next
    case True
    have ppl: "?pp < pos" using True by arith
    have pin: "heap ! ?pp \<in> S" using sub ppl len by (meson less_trans nth_mem subsetD)
    then obtain t where t: "lt newitem (heap ! ?pp) = Some t"
      using tot nin by (auto simp: comparable_on_def)
    show ?thesis
    proof (cases t)
      case False
      then have "siftdown lt heap 0 newitem pos = Inr (heap[pos := newitem])"
        using True t by (subst siftdown.simps) simp
      moreover have "le_of lt (heap ! ?pp) newitem" using t False by (simp add: le_of_def)
      ultimately show ?thesis using fin by auto
    next
      case T: True
      let ?h = "heap[pos := heap ! ?pp]"
      have lt_le: "le_of lt newitem (heap ! ?pp)" using lt_le_of[OF po] t T by simp
      have sub': "set ?h \<subseteq> S" using sub pin by (meson set_update_subset_insert subset_trans insert_subset)
      have len': "?pp < length ?h" using ppl len by simp
      have hole': "hole_inv lt ?h ?pp"
        unfolding hole_inv_def
      proof (intro conjI allI impI)
        fix i assume i: "0 < i \<and> i < length ?h \<and> i \<noteq> ?pp \<and> (i - 1) div 2 \<noteq> ?pp"
        let ?p = "(i - 1) div 2"
        have pl: "?p < i" using i by arith
        show "le_of lt (?h ! ?p) (?h ! i)"
        proof (cases "i = pos")
          case True
          with i show ?thesis by simp
        next
          case False
          show ?thesis
          proof (cases "?p = pos")
            case True
            have "le_of lt (heap ! ?pp) (heap ! i)"
              using hole True i \<open>0 < pos\<close> unfolding hole_inv_def by auto
            with True False len i show ?thesis by simp
          next
            case F2: False
            then show ?thesis using hole i False unfolding hole_inv_def by auto
          qed
        qed
      next
        fix c assume pp0: "0 < ?pp" and c: "0 < c \<and> c < length ?h \<and> (c - 1) div 2 = ?pp"
        let ?g = "(?pp - 1) div 2"
        have gl: "?g < ?pp" using pp0 by arith
        have gp: "le_of lt (heap ! ?g) (heap ! ?pp)"
          using hole pp0 ppl len gl unfolding hole_inv_def by auto
        have g_in: "heap ! ?g \<in> S" using sub gl ppl len by (meson less_trans nth_mem subsetD)
        show "le_of lt (?h ! ((?pp - 1) div 2)) (?h ! c)"
        proof (cases "c = pos")
          case True
          with gp gl ppl len show ?thesis by simp
        next
          case False
          have cp: "le_of lt (heap ! ?pp) (heap ! c)"
            using hole c False ppl unfolding hole_inv_def by auto
          have c_in: "heap ! c \<in> S" using sub c by (metis length_list_update nth_mem subsetD)
          have "le_of lt (heap ! ?g) (heap ! c)"
            by (rule le_of_trans[OF po tot g_in pin c_in gp cp])
          with False gl ppl show ?thesis by simp
        qed
      qed
      have below': "below_children lt ?h ?pp newitem"
        unfolding below_children_def
      proof (intro allI impI)
        fix c assume c: "0 < c \<and> c < length ?h \<and> (c - 1) div 2 = ?pp"
        show "le_of lt newitem (?h ! c)"
        proof (cases "c = pos")
          case True
          with lt_le len show ?thesis by simp
        next
          case False
          have cp: "le_of lt (heap ! ?pp) (heap ! c)"
            using hole c False ppl unfolding hole_inv_def by auto
          have c_in: "heap ! c \<in> S" using sub c by (metis length_list_update nth_mem subsetD)
          have "le_of lt newitem (heap ! c)"
            by (rule le_of_trans[OF po tot nin pin c_in lt_le cp])
          with False show ?thesis by simp
        qed
      qed
      have "\<exists>h'. siftdown lt ?h 0 newitem ?pp = Inr h' \<and> is_heap lt h'
           \<and> mset h' = mset (?h[?pp := newitem])"
        by (rule "1.hyps"[OF True t _ po tot sub' nin len' hole' below']) (simp add: T)
      moreover have "siftdown lt heap 0 newitem pos = siftdown lt ?h 0 newitem ?pp"
        using True t T by (subst siftdown.simps) simp
      moreover have "mset (?h[?pp := newitem]) = mset (heap[pos := newitem])"
        by (rule mset_update_swap) (use len ppl in auto)
      ultimately show ?thesis by auto
    qed
  qed
qed

lemma heappush_correct:
  assumes "py_order lt" "comparable_on lt S" "set heap \<subseteq> S" "item \<in> S" "is_heap lt heap"
  shows "\<exists>h'. heappush lt heap item = Inr h' \<and> is_heap lt h'
           \<and> mset h' = add_mset item (mset heap)"
proof -
  let ?h = "heap @ [item]"
  let ?pos = "length heap"
  have sub: "set ?h \<subseteq> S" using assms(3,4) by simp
  have len: "?pos < length ?h" by simp
  have hole: "hole_inv lt ?h ?pos"
    unfolding hole_inv_def
  proof (intro conjI allI impI)
    fix i assume i: "0 < i \<and> i < length ?h \<and> i \<noteq> ?pos \<and> (i - 1) div 2 \<noteq> ?pos"
    then have il: "i < length heap" by simp
    then have pl: "(i - 1) div 2 < length heap" by arith
    show "le_of lt (?h ! ((i - 1) div 2)) (?h ! i)"
      using assms(5) i il pl by (simp add: is_heap_def nth_append)
  next
    fix c assume "0 < ?pos" and c: "0 < c \<and> c < length ?h \<and> (c - 1) div 2 = ?pos"
    then have False by simp arith
    then show "le_of lt (?h ! ((?pos - 1) div 2)) (?h ! c)" ..
  qed
  have below: "below_children lt ?h ?pos item"
    unfolding below_children_def
  proof (intro allI impI)
    fix c assume c: "0 < c \<and> c < length ?h \<and> (c - 1) div 2 = ?pos"
    then have False by simp arith
    then show "le_of lt item (?h ! c)" ..
  qed
  from siftdown_correct[OF assms(1,2) sub assms(4) len hole below]
  show ?thesis by (simp add: heappush_def)
qed

lemma siftup_loop_correct:
  assumes "py_order lt" "comparable_on lt S" "set heap \<subseteq> S" "pos < length heap"
    and "hole_inv lt heap pos"
  shows "\<exists>h' pos'. siftup_loop lt heap pos = Inr (h', pos') \<and> pos' < length h'
      \<and> set h' \<subseteq> S \<and> hole_inv lt h' pos' \<and> length h' \<le> 2 * pos' + 1
      \<and> (\<forall>x. mset (h'[pos' := x]) = mset (heap[pos := x]))"
  using assms
proof (induction lt heap pos rule: siftup_loop.induct)
  case (1 lt heap pos)
  note po = "1.prems"(1) and tot = "1.prems"(2) and sub = "1.prems"(3)
    and len = "1.prems"(4) and hole = "1.prems"(5)
  let ?l = "2 * pos + 1" and ?r = "2 * pos + 2"
  have step: "\<exists>h' pos'. siftup_loop lt (heap[pos := heap ! c]) c = Inr (h', pos') \<and> pos' < length h'
      \<and> set h' \<subseteq> S \<and> hole_inv lt h' pos' \<and> length h' \<le> 2 * pos' + 1
      \<and> (\<forall>x. mset (h'[pos' := x]) = mset (heap[pos := x]))"
    if c: "c = ?l \<or> c = ?r" "c < length heap"
      and sib: "\<And>s. s = ?l \<or> s = ?r \<Longrightarrow> s < length heap \<Longrightarrow> le_of lt (heap ! c) (heap ! s)"
      and IH: "py_order lt \<Longrightarrow> comparable_on lt S \<Longrightarrow> set (heap[pos := heap ! c]) \<subseteq> S
          \<Longrightarrow> c < length (heap[pos := heap ! c]) \<Longrightarrow> hole_inv lt (heap[pos := heap ! c]) c
          \<Longrightarrow> \<exists>h' pos'. siftup_loop lt (heap[pos := heap ! c]) c = Inr (h', pos') \<and> pos' < length h'
      \<and> set h' \<subseteq> S \<and> hole_inv lt h' pos' \<and> length h' \<le> 2 * pos' + 1
      \<and> (\<forall>x. mset (h'[pos' := x]) = mset (heap[pos := heap ! c, c := x]))"
    for c
  proof -
    let ?h = "heap[pos := heap ! c]"
    have cpos: "pos < c" "(c - 1) div 2 = pos" "0 < c" using c(1) by auto
    have sub': "set ?h \<subseteq> S"
      using sub c(2) by (meson insert_subset nth_mem set_update_subset_insert subsetD subset_trans)
    have len': "c < length ?h" using c(2) by simp
    have hole': "hole_inv lt ?h c"
      unfolding hole_inv_def
    proof (intro conjI allI impI)
      fix i assume i: "0 < i \<and> i < length ?h \<and> i \<noteq> c \<and> (i - 1) div 2 \<noteq> c"
      let ?p = "(i - 1) div 2"
      have pl: "?p < i" using i by arith
      show "le_of lt (?h ! ?p) (?h ! i)"
      proof (cases "i = pos")
        case True
        then have p0: "0 < pos" using i by simp
        have "?p \<noteq> pos" using pl True by simp
        moreover have "le_of lt (heap ! ((pos - 1) div 2)) (heap ! c)"
          using hole p0 c(2) cpos unfolding hole_inv_def by auto
        ultimately show ?thesis using True len by simp
      next
        case False
        show ?thesis
        proof (cases "?p = pos")
          case True
          then have "i = ?l \<or> i = ?r" using i by arith
          then have "le_of lt (heap ! c) (heap ! i)" using sib i by simp
          with True False len show ?thesis by simp
        next
          case F2: False
          then show ?thesis using hole i False unfolding hole_inv_def by auto
        qed
      qed
    next
      fix d assume "0 < c" and d: "0 < d \<and> d < length ?h \<and> (d - 1) div 2 = c"
      have dp: "d \<noteq> pos" "(d - 1) div 2 \<noteq> pos" using d cpos by arith+
      have "le_of lt (heap ! c) (heap ! d)"
        using hole d dp unfolding hole_inv_def by auto
      then show "le_of lt (?h ! ((c - 1) div 2)) (?h ! d)"
        using cpos dp len by simp
    qed
    from IH[OF po tot sub' len' hole'] obtain h' pos' where
      r: "siftup_loop lt ?h c = Inr (h', pos')" "pos' < length h'" "set h' \<subseteq> S"
        "hole_inv lt h' pos'" "length h' \<le> 2 * pos' + 1"
        "\<forall>x. mset (h'[pos' := x]) = mset (heap[pos := heap ! c, c := x])"
      by blast
    have "mset (heap[pos := heap ! c, c := x]) = mset (heap[pos := x])" for x
      by (rule mset_update_swap) (use len c(2) in auto)
    with r show ?thesis by auto
  qed
  show ?case
  proof (cases "?l < length heap")
    case False
    then have "siftup_loop lt heap pos = Inr (heap, pos)" by (subst siftup_loop.simps) simp
    with False len sub hole show ?thesis by auto
  next
    case L: True
    show ?thesis
    proof (cases "?r < length heap")
      case False
      have eq: "siftup_loop lt heap pos = siftup_loop lt (heap[pos := heap ! ?l]) ?l"
        using L False by (subst siftup_loop.simps) simp
      have "\<exists>h' pos'. siftup_loop lt (heap[pos := heap ! ?l]) ?l = Inr (h', pos') \<and> pos' < length h'
        \<and> set h' \<subseteq> S \<and> hole_inv lt h' pos' \<and> length h' \<le> 2 * pos' + 1
        \<and> (\<forall>x. mset (h'[pos' := x]) = mset (heap[pos := x]))"
      proof (rule step)
        show "?l = ?l \<or> ?l = ?r" by simp
        show "?l < length heap" by (rule L)
        show "\<And>s. s = ?l \<or> s = ?r \<Longrightarrow> s < length heap \<Longrightarrow> le_of lt (heap ! ?l) (heap ! s)"
          using False le_of_refl[OF po tot] sub L by (metis nth_mem subsetD)
        show "py_order lt \<Longrightarrow> comparable_on lt S \<Longrightarrow> set (heap[pos := heap ! ?l]) \<subseteq> S
          \<Longrightarrow> ?l < length (heap[pos := heap ! ?l]) \<Longrightarrow> hole_inv lt (heap[pos := heap ! ?l]) ?l
          \<Longrightarrow> \<exists>h' pos'. siftup_loop lt (heap[pos := heap ! ?l]) ?l = Inr (h', pos') \<and> pos' < length h'
            \<and> set h' \<subseteq> S \<and> hole_inv lt h' pos' \<and> length h' \<le> 2 * pos' + 1
            \<and> (\<forall>x. mset (h'[pos' := x]) = mset (heap[pos := heap ! ?l, ?l := x]))"
          using "1.IH"(3)[OF L False] by blast
      qed
      with eq show ?thesis by simp
    next
      case R: True
      have lin: "heap ! ?l \<in> S" "heap ! ?r \<in> S" using sub L R by (meson nth_mem subsetD)+
      then obtain t where t: "lt (heap ! ?l) (heap ! ?r) = Some t"
        using tot by (auto simp: comparable_on_def)
      show ?thesis
      proof (cases t)
        case True
        have eq: "siftup_loop lt heap pos = siftup_loop lt (heap[pos := heap ! ?l]) ?l"
          using L R t True by (subst siftup_loop.simps) simp
        have "\<exists>h' pos'. siftup_loop lt (heap[pos := heap ! ?l]) ?l = Inr (h', pos') \<and> pos' < length h'
          \<and> set h' \<subseteq> S \<and> hole_inv lt h' pos' \<and> length h' \<le> 2 * pos' + 1
          \<and> (\<forall>x. mset (h'[pos' := x]) = mset (heap[pos := x]))"
        proof (rule step)
          show "?l = ?l \<or> ?l = ?r" by simp
          show "?l < length heap" by (rule L)
          show "\<And>s. s = ?l \<or> s = ?r \<Longrightarrow> s < length heap \<Longrightarrow> le_of lt (heap ! ?l) (heap ! s)"
            using le_of_refl[OF po tot lin(1)] lt_le_of[OF po] t True by auto
          show "py_order lt \<Longrightarrow> comparable_on lt S \<Longrightarrow> set (heap[pos := heap ! ?l]) \<subseteq> S
            \<Longrightarrow> ?l < length (heap[pos := heap ! ?l]) \<Longrightarrow> hole_inv lt (heap[pos := heap ! ?l]) ?l
            \<Longrightarrow> \<exists>h' pos'. siftup_loop lt (heap[pos := heap ! ?l]) ?l = Inr (h', pos') \<and> pos' < length h'
              \<and> set h' \<subseteq> S \<and> hole_inv lt h' pos' \<and> length h' \<le> 2 * pos' + 1
              \<and> (\<forall>x. mset (h'[pos' := x]) = mset (heap[pos := heap ! ?l, ?l := x]))"
            using "1.IH"(1)[OF L R t] True by blast
        qed
        with eq show ?thesis by simp
      next
        case False
        have eq: "siftup_loop lt heap pos = siftup_loop lt (heap[pos := heap ! ?r]) ?r"
          using L R t False by (subst siftup_loop.simps) simp
        have "\<exists>h' pos'. siftup_loop lt (heap[pos := heap ! ?r]) ?r = Inr (h', pos') \<and> pos' < length h'
          \<and> set h' \<subseteq> S \<and> hole_inv lt h' pos' \<and> length h' \<le> 2 * pos' + 1
          \<and> (\<forall>x. mset (h'[pos' := x]) = mset (heap[pos := x]))"
        proof (rule step)
          show "?r = ?l \<or> ?r = ?r" by simp
          show "?r < length heap" by (rule R)
          show "\<And>s. s = ?l \<or> s = ?r \<Longrightarrow> s < length heap \<Longrightarrow> le_of lt (heap ! ?r) (heap ! s)"
            using le_of_refl[OF po tot lin(2)] t False by (auto simp: le_of_def)
          show "py_order lt \<Longrightarrow> comparable_on lt S \<Longrightarrow> set (heap[pos := heap ! ?r]) \<subseteq> S
            \<Longrightarrow> ?r < length (heap[pos := heap ! ?r]) \<Longrightarrow> hole_inv lt (heap[pos := heap ! ?r]) ?r
            \<Longrightarrow> \<exists>h' pos'. siftup_loop lt (heap[pos := heap ! ?r]) ?r = Inr (h', pos') \<and> pos' < length h'
              \<and> set h' \<subseteq> S \<and> hole_inv lt h' pos' \<and> length h' \<le> 2 * pos' + 1
              \<and> (\<forall>x. mset (h'[pos' := x]) = mset (heap[pos := heap ! ?r, ?r := x]))"
            using "1.IH"(2)[OF L R t] False by blast
        qed
        with eq show ?thesis by simp
      qed
    qed
  qed
qed

lemma heap_root_min:
  assumes "py_order lt" "comparable_on lt S" "set h \<subseteq> S" "is_heap lt h" "i < length h"
  shows "le_of lt (h ! 0) (h ! i)"
  using assms(5)
proof (induction i rule: less_induct)
  case (less i)
  show ?case
  proof (cases "i = 0")
    case True
    then show ?thesis using le_of_refl[OF assms(1,2)] assms(3) less.prems by (metis nth_mem subsetD)
  next
    case False
    let ?p = "(i - 1) div 2"
    have pl: "?p < i" using False by arith
    have 1: "le_of lt (h ! 0) (h ! ?p)" using less.IH[OF pl] pl less.prems by simp
    have 2: "le_of lt (h ! ?p) (h ! i)" using assms(4) False less.prems by (simp add: is_heap_def)
    have "0 < length h" "?p < length h" using less.prems pl by auto
    then have in0: "h ! 0 \<in> S" "h ! ?p \<in> S" "h ! i \<in> S"
      using assms(3) less.prems nth_mem[of _ h] by blast+
    show ?thesis by (rule le_of_trans[OF assms(1,2) in0 1 2])
  qed
qed

lemma siftup_correct:
  assumes "py_order lt" "comparable_on lt S" "set heap \<subseteq> S" "heap \<noteq> []"
    and "\<forall>i. 0 < i \<and> i < length heap \<and> (i - 1) div 2 \<noteq> 0
           \<longrightarrow> le_of lt (heap ! ((i - 1) div 2)) (heap ! i)"
  shows "\<exists>h'. siftup lt heap 0 = Inr h' \<and> is_heap lt h' \<and> mset h' = mset heap"
proof -
  have len: "0 < length heap" using assms(4) by simp
  have hole: "hole_inv lt heap 0" using assms(5) by (auto simp: hole_inv_def)
  from siftup_loop_correct[OF assms(1,2,3) len hole] obtain h' pos' where
    r: "siftup_loop lt heap 0 = Inr (h', pos')" "pos' < length h'" "set h' \<subseteq> S"
      "hole_inv lt h' pos'" "length h' \<le> 2 * pos' + 1"
      "\<forall>x. mset (h'[pos' := x]) = mset (heap[0 := x])"
    by blast
  have nin: "heap ! 0 \<in> S" using assms(3) len by auto
  have below: "below_children lt h' pos' (heap ! 0)"
    unfolding below_children_def
  proof (intro allI impI)
    fix c assume c: "0 < c \<and> c < length h' \<and> (c - 1) div 2 = pos'"
    then have False using r(5) by arith
    then show "le_of lt (heap ! 0) (h' ! c)" ..
  qed
  from siftdown_correct[OF assms(1,2) r(3) nin r(2,4) below] obtain h'' where
    "siftdown lt h' 0 (heap ! 0) pos' = Inr h''" "is_heap lt h''"
    "mset h'' = mset (h'[pos' := heap ! 0])"
    by blast
  then show ?thesis using r(1,6) by (auto simp: siftup_def)
qed

lemma heappop_correct:
  assumes "py_order lt" "comparable_on lt S" "set heap \<subseteq> S" "heap \<noteq> []" "is_heap lt heap"
  shows "\<exists>h'. heappop lt heap = Inr (hd heap, h') \<and> is_heap lt h'
      \<and> mset heap = add_mset (hd heap) (mset h')
      \<and> (\<forall>y \<in> set heap. le_of lt (hd heap) y)"
proof -
  have hd0: "hd heap = heap ! 0" using assms(4) by (simp add: hd_conv_nth)
  have min: "\<forall>y \<in> set heap. le_of lt (hd heap) y"
    unfolding hd0 using heap_root_min[OF assms(1,2,3,5)] by (metis in_set_conv_nth)
  show ?thesis
  proof (cases "butlast heap = []")
    case True
    then have "heap = [last heap]" using assms(4) by (metis append_butlast_last_id append_Nil)
    then obtain x where x: "heap = [x]" by blast
    then have "heappop lt heap = Inr (hd heap, [])" "mset heap = {#hd heap#}"
      by (simp_all add: heappop_def)
    then show ?thesis using min by (auto simp: is_heap_def)
  next
    case False
    let ?b = "butlast heap"
    let ?h = "?b[0 := last heap]"
    have bl: "length ?b = length heap - 1" by simp
    have sub: "set ?h \<subseteq> S"
    proof -
      have "set ?h \<subseteq> insert (last heap) (set ?b)" by (rule set_update_subset_insert)
      moreover have "set ?b \<subseteq> set heap" by (meson in_set_butlastD subsetI)
      moreover have "last heap \<in> set heap" using assms(4) by simp
      ultimately show ?thesis using assms(3) by blast
    qed
    have ne: "?h \<noteq> []" using False by simp
    have inv: "\<forall>i. 0 < i \<and> i < length ?h \<and> (i - 1) div 2 \<noteq> 0
           \<longrightarrow> le_of lt (?h ! ((i - 1) div 2)) (?h ! i)"
    proof (intro allI impI)
      fix i assume i: "0 < i \<and> i < length ?h \<and> (i - 1) div 2 \<noteq> 0"
      then have il: "i < length heap - 1" by simp
      have pl: "(i - 1) div 2 < i" using i by arith
      have "0 < i \<and> i < length heap" using i il by linarith
      then have "le_of lt (heap ! ((i - 1) div 2)) (heap ! i)"
        using assms(5) unfolding is_heap_def by blast
      then show "le_of lt (?h ! ((i - 1) div 2)) (?h ! i)"
        using i il pl by (simp add: nth_butlast)
    qed
    from siftup_correct[OF assms(1,2) sub ne inv] obtain h' where
      h': "siftup lt ?h 0 = Inr h'" "is_heap lt h'" "mset h' = mset ?h"
      by blast
    have pop: "heappop lt heap = Inr (hd heap, h')"
      using assms(4) False h'(1) by (simp add: heappop_def)
    have "mset ?h = add_mset (last heap) (mset ?b - {#?b ! 0#})"
      by (rule mset_update) (use False in blast)
    moreover have "?b ! 0 = hd heap" using False assms(4)
      by (metis hd0 length_greater_0_conv nth_butlast)
    moreover have "mset heap = add_mset (last heap) (mset ?b)"
      using assms(4) by (metis append_butlast_last_id mset_append add_mset_add_single mset.simps)
    moreover have "hd heap \<in># mset ?b"
      using False \<open>?b ! 0 = hd heap\<close> by (metis length_greater_0_conv nth_mem set_mset_mset)
    ultimately have "mset heap = add_mset (hd heap) (mset h')"
      using h'(3) by simp
    with pop h'(2) min show ?thesis by blast
  qed
qed

end
